theory Spec2Isabelle
  imports Complex_Main
begin

section \<open>The AST of lambdatoy\<close>

text \<open>
  The program builds its syntax trees from four classes, \<^verbatim>\<open>Lambda\<close>, \<^verbatim>\<open>Apply\<close>,
  \<^verbatim>\<open>Val\<close> and \<^verbatim>\<open>Var\<close>. Their fields are untyped Python references, and the
  parser stores \<^verbatim>\<open>None\<close> in \<^verbatim>\<open>Lambda.body\<close> and \<^verbatim>\<open>Apply.expr\<close> for an empty
  expression (\<^verbatim>\<open>@x .\<close> and \<^verbatim>\<open>x ().\<close>), so the absent value is a fifth leaf
  \<open>NoneN\<close>. Calling a method on it raises \<^verbatim>\<open>AttributeError\<close>. No node is mutated
  after its construction, so a node is its value.

  A \<^verbatim>\<open>Val\<close> holds a Python int, float or str. Python compares numbers by their
  mathematical value, so a float is represented by the value it denotes, with
  the negative zero apart (it equals zero and prints differently). A NaN is left
  out: no literal of the language denotes one. The conversions between floats
  and text, \<^verbatim>\<open>float(s)\<close> and \<^verbatim>\<open>str(x)\<close>, are parameters of the functions that
  call them.
\<close>

datatype pyfloat = Fin rat | NegZero | PInf | NInf

datatype pyval = IntV int | FloatV pyfloat | StrV string

datatype node =
    NoneN
  | Lambda string node
  | Apply node node
  | Val pyval
  | Var string

datatype error =
    AttributeError
  | InvalidToken nat string
  | SyntaxError nat string

text \<open>\<^verbatim>\<open>self.value == other.value\<close> on the three kinds of value.\<close>

fun float_value :: "pyfloat \<Rightarrow> pyfloat" where
  "float_value NegZero = Fin 0"
| "float_value x = x"

fun val_eq :: "pyval \<Rightarrow> pyval \<Rightarrow> bool" where
  "val_eq (IntV i) (IntV j) = (i = j)"
| "val_eq (IntV i) (FloatV y) = (Fin (of_int i) = float_value y)"
| "val_eq (FloatV x) (IntV j) = (float_value x = Fin (of_int j))"
| "val_eq (FloatV x) (FloatV y) = (float_value x = float_value y)"
| "val_eq (StrV a) (StrV b) = (a = b)"
| "val_eq _ _ = False"

subsection \<open>The counter \<^verbatim>\<open>gen\<close> and the names it makes\<close>

text \<open>
  \<^verbatim>\<open>gen = itertools.count(1)\<close> is the only global state the tree operations touch.
  Every function that may call \<^verbatim>\<open>next(gen)\<close> takes the next value of the counter
  and returns the value after it. \<open>str_nat\<close> is Python's \<^verbatim>\<open>str\<close> on a natural
  number.
\<close>

definition digit_char :: "nat \<Rightarrow> char" where
  "digit_char d = char_of (48 + d)"

fun str_nat :: "nat \<Rightarrow> string" where
  "str_nat n = (if n < 10 then [digit_char n] else str_nat (n div 10) @ [digit_char (n mod 10)])"

declare str_nat.simps [simp del]

definition unique_arg :: "nat \<Rightarrow> string" where
  "unique_arg n = CHR ''x'' # str_nat n"

text \<open>The value of a string of decimal digits, and Python's \<^verbatim>\<open>str\<close> on an int.\<close>

definition digit_val :: "char \<Rightarrow> nat" where
  "digit_val c = of_char c - 48"

definition nat_of_str :: "string \<Rightarrow> nat" where
  "nat_of_str cs = foldl (\<lambda>a c. 10 * a + digit_val c) 0 cs"


subsection \<open>copy and subst\<close>

fun copy :: "node \<Rightarrow> error + node" where
  "copy NoneN = Inl AttributeError"
| "copy (Lambda v body) =
     (case copy body of Inl e \<Rightarrow> Inl e | Inr b \<Rightarrow> Inr (Lambda v b))"
| "copy (Apply f x) =
     (case copy f of Inl e \<Rightarrow> Inl e
      | Inr f' \<Rightarrow> (case copy x of Inl e \<Rightarrow> Inl e | Inr x' \<Rightarrow> Inr (Apply f' x')))"
| "copy (Val c) = Inr (Val c)"
| "copy (Var x) = Inr (Var x)"

fun subst :: "node \<Rightarrow> string \<Rightarrow> node \<Rightarrow> error + node" where
  "subst NoneN var expr = Inl AttributeError"
| "subst (Lambda v body) var expr =
     (if var = v then Inr (Lambda v body)
      else (case subst body var expr of Inl e \<Rightarrow> Inl e | Inr new_body \<Rightarrow> Inr (Lambda v new_body)))"
| "subst (Apply f x) var expr =
     (case subst f var expr of Inl e \<Rightarrow> Inl e
      | Inr new_fun \<Rightarrow>
          (case subst x var expr of Inl e \<Rightarrow> Inl e
           | Inr new_expr \<Rightarrow> Inr (Apply new_fun new_expr)))"
| "subst (Val c) var expr = Inr (Val c)"
| "subst (Var name) var expr = (if name = var then copy expr else copy (Var name))"

text \<open>A node is proper when no \<^verbatim>\<open>None\<close> stands inside it.\<close>

fun proper :: "node \<Rightarrow> bool" where
  "proper NoneN = False"
| "proper (Lambda v body) = proper body"
| "proper (Apply f x) = (proper f \<and> proper x)"
| "proper (Val c) = True"
| "proper (Var x) = True"

text \<open>Every identifier of a node: the variables and the parameters.\<close>

fun names :: "node \<Rightarrow> string set" where
  "names NoneN = {}"
| "names (Lambda v body) = insert v (names body)"
| "names (Apply f x) = names f \<union> names x"
| "names (Val c) = {}"
| "names (Var x) = {x}"

fun free_vars :: "node \<Rightarrow> string set" where
  "free_vars NoneN = {}"
| "free_vars (Lambda v body) = free_vars body - {v}"
| "free_vars (Apply f x) = free_vars f \<union> free_vars x"
| "free_vars (Val c) = {}"
| "free_vars (Var x) = {x}"

lemma copy_AttributeError: "copy t = Inl e \<Longrightarrow> e = AttributeError"
  by (induction t arbitrary: e) (auto split: sum.splits)

lemma copy_proper: "proper t \<Longrightarrow> copy t = Inr t"
  by (induction t) auto

lemma copy_Inr: "copy t = Inr t' \<Longrightarrow> t' = t \<and> proper t"
  by (induction t arbitrary: t') (auto split: sum.splits)

lemma subst_AttributeError: "subst t v e = Inl err \<Longrightarrow> err = AttributeError"
  by (induction t arbitrary: err) (auto split: sum.splits if_splits dest: copy_AttributeError)

lemma subst_Var_size: "subst t v (Var u) = Inr t' \<Longrightarrow> size t' = size t"
  by (induction t arbitrary: t') (auto split: sum.splits if_splits)

subsection \<open>Equality\<close>

text \<open>
  \<^verbatim>\<open>__eq__\<close> of the four classes, and \<^verbatim>\<open>==\<close> with \<^verbatim>\<open>None\<close> on the left, which
  Python answers by identity after both sides have declined. \<^verbatim>\<open>Lambda.__eq__\<close>
  draws from \<^verbatim>\<open>gen\<close> before it calls \<^verbatim>\<open>subst\<close>, so the counter has
  advanced when \<^verbatim>\<open>subst\<close> raises. The \<^verbatim>\<open>and\<close> of \<^verbatim>\<open>Apply.__eq__\<close> does not
  compare the arguments when the functions differ.
\<close>

function node_eq :: "node \<Rightarrow> node \<Rightarrow> nat \<Rightarrow> (error + bool) \<times> nat" where
  "node_eq NoneN other n = (Inr (other = NoneN), n)"
| "node_eq (Lambda v body) other n =
     (case other of
        Lambda w body' \<Rightarrow>
          (case subst body v (Var (unique_arg n)) of
             Inl e \<Rightarrow> (Inl e, Suc n)
           | Inr l \<Rightarrow>
               (case subst body' w (Var (unique_arg n)) of
                  Inl e \<Rightarrow> (Inl e, Suc n)
                | Inr r \<Rightarrow> node_eq l r (Suc n)))
      | _ \<Rightarrow> (Inr False, n))"
| "node_eq (Apply f x) other n =
     (case other of
        Apply g y \<Rightarrow>
          (case node_eq f g n of
             (Inl e, n1) \<Rightarrow> (Inl e, n1)
           | (Inr b, n1) \<Rightarrow> if b then node_eq x y n1 else (Inr False, n1))
      | _ \<Rightarrow> (Inr False, n))"
| "node_eq (Val c) other n =
     (case other of Val d \<Rightarrow> (Inr (val_eq c d), n) | _ \<Rightarrow> (Inr False, n))"
| "node_eq (Var a) other n =
     (case other of Var b \<Rightarrow> (Inr (a = b), n) | _ \<Rightarrow> (Inr False, n))"
  by pat_completeness auto
termination
  by (relation "measure (\<lambda>(a, b, n). size a)") (auto dest: subst_Var_size)

subsection \<open>One reduction step\<close>

text \<open>
  \<^verbatim>\<open>beta_step\<close> of the four classes. \<^verbatim>\<open>Apply.beta_step\<close> compares the function
  with its own step by \<^verbatim>\<open>==\<close>, so a step may draw from \<^verbatim>\<open>gen\<close>.
\<close>

definition beta_redex :: "string \<Rightarrow> node \<Rightarrow> node \<Rightarrow> error + node" where
  "beta_redex v body expr = subst body v expr"

fun beta_step :: "node \<Rightarrow> nat \<Rightarrow> (error + node) \<times> nat" where
  "beta_step NoneN n = (Inl AttributeError, n)"
| "beta_step (Lambda v body) n =
     (case beta_step body n of
        (Inl e, n1) \<Rightarrow> (Inl e, n1)
      | (Inr b, n1) \<Rightarrow> (Inr (Lambda v b), n1))"
| "beta_step (Apply f x) n =
     (case f of
        Lambda v body \<Rightarrow> (beta_redex v body x, n)
      | _ \<Rightarrow>
        (case beta_step f n of
           (Inl e, n1) \<Rightarrow> (Inl e, n1)
         | (Inr new_fun, n1) \<Rightarrow>
             (case node_eq f new_fun n1 of
                (Inl e, n2) \<Rightarrow> (Inl e, n2)
              | (Inr same, n2) \<Rightarrow>
                  if same then
                    (case beta_step x n2 of
                       (Inl e, n3) \<Rightarrow> (Inl e, n3)
                     | (Inr new_expr, n3) \<Rightarrow> (Inr (Apply new_fun new_expr), n3))
                  else
                    (case copy x of
                       Inl e \<Rightarrow> (Inl e, n2)
                     | Inr new_expr \<Rightarrow> (Inr (Apply new_fun new_expr), n2)))))"
| "beta_step (Val c) n = (Inr (Val c), n)"
| "beta_step (Var x) n = (Inr (Var x), n)"

subsection \<open>Reduction to normal form\<close>

text \<open>
  \<^verbatim>\<open>beta_left\<close> has no bound on its loop, so it is a partial function: \<open>None\<close>
  is the run that never ends. The loop keeps \<^verbatim>\<open>term\<close> and \<^verbatim>\<open>term_next\<close>; its
  test \<^verbatim>\<open>term != term_next\<close> is the negation of \<^verbatim>\<open>__eq__\<close>.
\<close>

partial_function (option) beta_left_loop ::
  "node \<Rightarrow> node \<Rightarrow> nat \<Rightarrow> ((error + node) \<times> nat) option" where
  "beta_left_loop term term_next n =
     (case node_eq term term_next n of
        (Inl e, n1) \<Rightarrow> Some (Inl e, n1)
      | (Inr same, n1) \<Rightarrow>
          if same then Some (Inr term_next, n1)
          else
            (case beta_step term_next n1 of
               (Inl e, n2) \<Rightarrow> Some (Inl e, n2)
             | (Inr t, n2) \<Rightarrow> beta_left_loop term_next t n2))"

declare beta_left_loop.simps [code]

definition beta_left :: "node \<Rightarrow> nat \<Rightarrow> ((error + node) \<times> nat) option" where
  "beta_left term n =
     (case beta_step term n of
        (Inl e, n1) \<Rightarrow> Some (Inl e, n1)
      | (Inr term_next, n1) \<Rightarrow> beta_left_loop term term_next n1)"

text \<open>
  The runs of the loop, as a relation: \<open>iterates t n p m q m1\<close> says that
  \<^verbatim>\<open>beta_left\<close>, started on \<open>t\<close> with the counter at \<open>n\<close>, reaches its test with
  \<^verbatim>\<open>term = p\<close> and \<^verbatim>\<open>term_next = q\<close>, where \<open>q\<close> is the step of \<open>p\<close> taken with
  the counter at \<open>m\<close>, and \<open>m1\<close> is the counter at the test. Every pair tested
  before was found unequal.
\<close>

inductive iterates :: "node \<Rightarrow> nat \<Rightarrow> node \<Rightarrow> nat \<Rightarrow> node \<Rightarrow> nat \<Rightarrow> bool" where
  it_first: "beta_step t n = (Inr q, n1) \<Longrightarrow> iterates t n t n q n1"
| it_next: "iterates t n p m q m1 \<Longrightarrow> node_eq p q m1 = (Inr False, m2) \<Longrightarrow>
     beta_step q m2 = (Inr q', m3) \<Longrightarrow> iterates t n q m2 q' m3"

subsection \<open>The environment\<close>

text \<open>
  \<^verbatim>\<open>known\<close> is a dict; \<^verbatim>\<open>known.items()\<close> yields its pairs in insertion order,
  so \<^verbatim>\<open>process_term\<close> takes them as a list in that order. \<open>process_known\<close> is
  its \<^verbatim>\<open>for\<close> loop.
\<close>

fun process_known :: "(string \<times> node) list \<Rightarrow> node \<Rightarrow> nat \<Rightarrow> (error + node) \<times> nat" where
  "process_known [] term n = (Inr term, n)"
| "process_known ((key, val) # known) term n =
     (case beta_step (Apply (Lambda key term) val) n of
        (Inl e, n1) \<Rightarrow> (Inl e, n1)
      | (Inr t, n1) \<Rightarrow> process_known known t n1)"

definition process_term ::
  "(string \<times> node) list \<Rightarrow> node \<Rightarrow> nat \<Rightarrow> ((error + node) \<times> nat) option" where
  "process_term known term n =
     (case process_known known term n of
        (Inl e, n1) \<Rightarrow> Some (Inl e, n1)
      | (Inr t, n1) \<Rightarrow> beta_left t n1)"

text \<open>
  The specification's reading of the same loop: substitute the value of each
  binding for its name, one binding after the other.
\<close>

fun substitute_bindings :: "(string \<times> node) list \<Rightarrow> node \<Rightarrow> error + node" where
  "substitute_bindings [] t = Inr t"
| "substitute_bindings ((name, value) # bindings) t =
     (case subst t name value of
        Inl e \<Rightarrow> Inl e
      | Inr t' \<Rightarrow> substitute_bindings bindings t')"

subsection \<open>Rendering\<close>

text \<open>
  \<^verbatim>\<open>__repr__\<close> of the four classes; \<^verbatim>\<open>%s\<close> renders \<^verbatim>\<open>None\<close> as its name.
  \<open>str_replace\<close> is \<^verbatim>\<open>str.replace\<close> for a pattern of one character. The
  parameter \<open>fs\<close> is \<^verbatim>\<open>str\<close> on a float.
\<close>

definition dquote :: char where
  "dquote = CHR 0x22"


definition str_replace :: "char \<Rightarrow> string \<Rightarrow> string \<Rightarrow> string" where
  "str_replace old new str = concat (map (\<lambda>c. if c = old then new else [c]) str)"




section \<open>The lexer\<close>

text \<open>
  The source text is a list of characters with code points below 256. Each
  pattern of \<^verbatim>\<open>TOKENS\<close> is modelled by the function that \<^verbatim>\<open>re.match\<close> computes
  for it: the prefix of the text it matches, if any. None of the patterns
  needs backtracking: every repetition in them is followed only by optional
  groups.

  \<^item> \<^verbatim>\<open>\s\<close> on a str is Unicode white space: code points 9 to 13, 28 to 32,
    133 and 160 below 256.
  \<^item> \<^verbatim>\<open>IDENT\<close> is \<^verbatim>\<open>[a-zA-Z_SYM][a-zA-Z0-9_SYM]*\<close>, the characters of \<^verbatim>\<open>SYM\<close>
    being \<^verbatim>\<open>- + ! # $ % ^ & * ? , / [ ] =\<close>.
  \<^item> the number pattern is \<^verbatim>\<open>(\-|\+)?[0-9]+(\.[0-9]+)?(E(\-|\+)?[0-9]+)?\<close>.
  \<^item> the string pattern is a double quote, \<^verbatim>\<open>[^"]\<close> once, and a double quote.
\<close>

definition is_space :: "char \<Rightarrow> bool" where
  "is_space c = ((of_char c :: nat) \<in> set [9, 10, 11, 12, 13, 28, 29, 30, 31, 32, 133, 160])"

definition is_digit :: "char \<Rightarrow> bool" where
  "is_digit c = (48 \<le> (of_char c :: nat) \<and> (of_char c :: nat) \<le> 57)"

definition is_letter :: "char \<Rightarrow> bool" where
  "is_letter c = (97 \<le> (of_char c :: nat) \<and> (of_char c :: nat) \<le> 122 \<or>
                  65 \<le> (of_char c :: nat) \<and> (of_char c :: nat) \<le> 90)"

definition SYM :: string where
  "SYM = ''-+!#$%^&*?,/[]=''"

definition ident_start :: "char \<Rightarrow> bool" where
  "ident_start c = (is_letter c \<or> c = CHR ''_'' \<or> c \<in> set SYM)"

definition ident_char :: "char \<Rightarrow> bool" where
  "ident_char c = (is_letter c \<or> is_digit c \<or> c = CHR ''_'' \<or> c \<in> set SYM)"

definition IDENT :: "string \<Rightarrow> string option" where
  "IDENT str =
     (case str of
        [] \<Rightarrow> None
      | c # cs \<Rightarrow> if ident_start c then Some (c # takeWhile ident_char cs) else None)"

definition re_char :: "char \<Rightarrow> string \<Rightarrow> string option" where
  "re_char c str = (case str of [] \<Rightarrow> None | d # cs \<Rightarrow> if d = c then Some [c] else None)"

definition re_char_IDENT :: "char \<Rightarrow> string \<Rightarrow> string option" where
  "re_char_IDENT c str =
     (case str of
        [] \<Rightarrow> None
      | d # cs \<Rightarrow>
          if d = c then (case IDENT cs of None \<Rightarrow> None | Some w \<Rightarrow> Some (c # w)) else None)"

definition opt_sign :: "string \<Rightarrow> string" where
  "opt_sign str =
     (case str of [] \<Rightarrow> [] | c # cs \<Rightarrow> if c = CHR ''-'' \<or> c = CHR ''+'' then [c] else [])"

definition opt_fraction :: "string \<Rightarrow> string" where
  "opt_fraction str =
     (case str of
        [] \<Rightarrow> []
      | c # cs \<Rightarrow>
          if c = CHR ''.'' \<and> takeWhile is_digit cs \<noteq> [] then c # takeWhile is_digit cs else [])"

definition opt_exponent :: "string \<Rightarrow> string" where
  "opt_exponent str =
     (case str of
        [] \<Rightarrow> []
      | c # cs \<Rightarrow>
          if c = CHR ''E'' then
            (let sg = opt_sign cs; ds = takeWhile is_digit (drop (length sg) cs)
             in if ds \<noteq> [] then c # sg @ ds else [])
          else [])"

definition re_number :: "string \<Rightarrow> string option" where
  "re_number str =
     (let sg = opt_sign str;
          ds = takeWhile is_digit (drop (length sg) str)
      in if ds = [] then None
         else
           (let fr = opt_fraction (drop (length (sg @ ds)) str);
                ex = opt_exponent (drop (length (sg @ ds @ fr)) str)
            in Some (sg @ ds @ fr @ ex)))"

definition re_string :: "string \<Rightarrow> string option" where
  "re_string str =
     (case str of
        a # b # c # rest \<Rightarrow>
          if a = dquote \<and> b \<noteq> dquote \<and> c = dquote then Some [a, b, c] else None
      | _ \<Rightarrow> None)"

text \<open>
  The keys of \<^verbatim>\<open>TOKENS\<close>, in the order of the dict, which is the order in which
  \<^verbatim>\<open>scan\<close> tries the patterns.
\<close>

datatype tok = TLParen | TRParen | TDot | TLet | TLambda | TNumber | TString | TVar

definition TOKENS :: "(tok \<times> (string \<Rightarrow> string option)) list" where
  "TOKENS =
     [(TLParen, re_char CHR ''(''),
      (TRParen, re_char CHR '')''),
      (TDot, re_char CHR ''.''),
      (TLet, re_char_IDENT CHR '':''),
      (TLambda, re_char_IDENT CHR ''@''),
      (TNumber, re_number),
      (TString, re_string),
      (TVar, IDENT)]"

fun first_match ::
  "(tok \<times> (string \<Rightarrow> string option)) list \<Rightarrow> string \<Rightarrow> (tok \<times> string) option" where
  "first_match [] str = None"
| "first_match ((key, r) # rest) str =
     (case r str of Some w \<Rightarrow> Some (key, w) | None \<Rightarrow> first_match rest str)"

text \<open>
  The fields of the \<^verbatim>\<open>Parser\<close> object. \<^verbatim>\<open>word\<close> is read only after a scan that
  has set it together with \<^verbatim>\<open>token\<close>. \<^verbatim>\<open>scan\<close> adds the length of the token to
  \<^verbatim>\<open>pos\<close> and nothing for the white space it drops.
\<close>

record pstate =
  s :: string
  pos :: nat
  token :: "tok option"
  word :: string

definition scan :: "pstate \<Rightarrow> error + pstate" where
  "scan st =
     (let s1 = dropWhile is_space (s st) in
      if s1 = [] then Inr (st\<lparr>s := s1, token := None\<rparr>)
      else
        (case first_match TOKENS s1 of
           Some (key, w) \<Rightarrow>
             Inr (st\<lparr>s := drop (length w) s1, pos := pos st + length w,
                      token := Some key, word := w\<rparr>)
         | None \<Rightarrow> Inl (InvalidToken (pos st) (take 20 s1))))"

definition start :: "string \<Rightarrow> pstate" where
  "start text = \<lparr>s = text, pos = 1, token = None, word = []\<rparr>"

section \<open>The parser\<close>

text \<open>
  \<open>py_int\<close> is \<^verbatim>\<open>int\<close> on the words the number pattern matches without a
  fraction and an exponent: an optional sign and decimal digits, of any length.
  \<open>py_find\<close> is \<^verbatim>\<open>str.find\<close> for one character. The parameter \<open>fl\<close> of the
  parsing functions is \<^verbatim>\<open>float\<close> on the words of the number pattern.
\<close>

definition py_int :: "string \<Rightarrow> int" where
  "py_int w =
     (case w of
        [] \<Rightarrow> 0
      | c # cs \<Rightarrow>
          if c = CHR ''-'' then - int (nat_of_str cs)
          else if c = CHR ''+'' then int (nat_of_str cs)
          else int (nat_of_str w))"

definition py_find :: "char \<Rightarrow> string \<Rightarrow> int" where
  "py_find c str = (if c \<in> set str then int (length (takeWhile (\<lambda>d. d \<noteq> c) str)) else - 1)"

definition number_value :: "(string \<Rightarrow> pyfloat) \<Rightarrow> string \<Rightarrow> pyval" where
  "number_value fl w =
     (if py_find CHR ''E'' w > - 1 \<or> py_find CHR ''.'' w > 0 then FloatV (fl w)
      else IntV (py_int w))"

text \<open>
  A statement is a \<^verbatim>\<open>Let\<close> object or a bare node. \<open>add\<close> is
  \<^verbatim>\<open>ApplyAccumulator.add\<close>: a node is true, \<^verbatim>\<open>None\<close> is false.
\<close>

datatype statement = LetStmt string node | Expr node

definition add :: "node \<Rightarrow> node \<Rightarrow> node" where
  "add acc t = (if acc \<noteq> NoneN then Apply acc t else t)"

text \<open>
  The parsing functions call each other and loop on the token, so they take a
  bound on the depth of calls and iterations and return \<open>None\<close> when they reach
  it. The source has no such bound: the last section shows that a bound of
  \<open>3 * length text + 5\<close> is never reached and that a greater bound gives the
  same result. \<open>parse_expr\<close> is one round of the loop of
  \<^verbatim>\<open>Parser.parse_expr\<close>, with the accumulator; \<open>parse_lambda\<close> is one round of the
  first loop of \<^verbatim>\<open>Parser.parse_lambda\<close>, with the list \<^verbatim>\<open>ll\<close>, and then its end.
\<close>

fun parse_expr ::
    "(string \<Rightarrow> pyfloat) \<Rightarrow> nat \<Rightarrow> node \<Rightarrow> pstate \<Rightarrow> (error + node \<times> pstate) option"
  and parse_lambda ::
    "(string \<Rightarrow> pyfloat) \<Rightarrow> nat \<Rightarrow> string list \<Rightarrow> pstate \<Rightarrow> (error + node \<times> pstate) option"
where
  "parse_expr fl 0 acc st = None"
| "parse_expr fl (Suc k) acc st =
     (case token st of
        None \<Rightarrow> Some (Inr (acc, st))
      | Some TDot \<Rightarrow> Some (Inr (acc, st))
      | Some TRParen \<Rightarrow> Some (Inr (acc, st))
      | Some TLParen \<Rightarrow>
          (case scan st of
             Inl e \<Rightarrow> Some (Inl e)
           | Inr st1 \<Rightarrow>
               (case parse_expr fl k NoneN st1 of
                  None \<Rightarrow> None
                | Some (Inl e) \<Rightarrow> Some (Inl e)
                | Some (Inr (t, st2)) \<Rightarrow>
                    if token st2 \<noteq> Some TRParen
                    then Some (Inl (SyntaxError (pos st2) '') expected''))
                    else
                      (case scan st2 of
                         Inl e \<Rightarrow> Some (Inl e)
                       | Inr st3 \<Rightarrow> parse_expr fl k (add acc t) st3)))
      | Some TLambda \<Rightarrow>
          (case parse_lambda fl k [] st of
             None \<Rightarrow> None
           | Some (Inl e) \<Rightarrow> Some (Inl e)
           | Some (Inr (t, st1)) \<Rightarrow> parse_expr fl k (add acc t) st1)
      | Some TVar \<Rightarrow>
          (case scan st of
             Inl e \<Rightarrow> Some (Inl e)
           | Inr st1 \<Rightarrow> parse_expr fl k (add acc (Var (word st))) st1)
      | Some TString \<Rightarrow>
          (case scan st of
             Inl e \<Rightarrow> Some (Inl e)
           | Inr st1 \<Rightarrow>
               parse_expr fl k
                 (add acc (Val (StrV (str_replace dquote [dquote] (butlast (tl (word st)))))))
                 st1)
      | Some TNumber \<Rightarrow>
          (case scan st of
             Inl e \<Rightarrow> Some (Inl e)
           | Inr st1 \<Rightarrow> parse_expr fl k (add acc (Val (number_value fl (word st)))) st1)
      | Some TLet \<Rightarrow> Some (Inl (SyntaxError (pos st) ''Unexpected token'')))"
| "parse_lambda fl 0 ll st = None"
| "parse_lambda fl (Suc k) ll st =
     (if token st = Some TLambda then
        (case scan st of
           Inl e \<Rightarrow> Some (Inl e)
         | Inr st1 \<Rightarrow> parse_lambda fl k (ll @ [tl (word st)]) st1)
      else
        (case parse_expr fl k NoneN st of
           None \<Rightarrow> None
         | Some (Inl e) \<Rightarrow> Some (Inl e)
         | Some (Inr (res, st1)) \<Rightarrow> Some (Inr (foldr Lambda ll res, st1))))"

fun parse_statements ::
  "(string \<Rightarrow> pyfloat) \<Rightarrow> nat \<Rightarrow> statement list \<Rightarrow> pstate \<Rightarrow>
     (error + statement list \<times> pstate) option"
where
  "parse_statements fl 0 res st = None"
| "parse_statements fl (Suc k) res st =
     (if token st = None then Some (Inr (res, st))
      else
        (case
           (if token st = Some TLet then
              (case scan st of
                 Inl e \<Rightarrow> Some (Inl e)
               | Inr st1 \<Rightarrow>
                   if token st1 \<noteq> Some TVar \<or> word st1 \<noteq> ''=''
                   then Some (Inl (SyntaxError (pos st1) ''= expected''))
                   else
                     (case scan st1 of
                        Inl e \<Rightarrow> Some (Inl e)
                      | Inr st2 \<Rightarrow>
                          (case parse_expr fl k NoneN st2 of
                             None \<Rightarrow> None
                           | Some (Inl e) \<Rightarrow> Some (Inl e)
                           | Some (Inr (t, st3)) \<Rightarrow>
                               Some (Inr (LetStmt (tl (word st)) t, st3)))))
            else
              (case parse_expr fl k NoneN st of
                 None \<Rightarrow> None
               | Some (Inl e) \<Rightarrow> Some (Inl e)
               | Some (Inr (t, st3)) \<Rightarrow> Some (Inr (Expr t, st3))))
         of
           None \<Rightarrow> None
         | Some (Inl e) \<Rightarrow> Some (Inl e)
         | Some (Inr (stmt, st3)) \<Rightarrow>
             if token st3 \<noteq> Some TDot
             then Some (Inl (SyntaxError (pos st3) (CHR 0x27 # ''.'' @ CHR 0x27 # '' expected'')))
             else
               (case scan st3 of
                  Inl e \<Rightarrow> Some (Inl e)
                | Inr st4 \<Rightarrow> parse_statements fl k (res @ [stmt]) st4)))"

definition parse ::
  "(string \<Rightarrow> pyfloat) \<Rightarrow> nat \<Rightarrow> string \<Rightarrow> (error + statement list) option" where
  "parse fl k text =
     (case scan (start text) of
        Inl e \<Rightarrow> Some (Inl e)
      | Inr st \<Rightarrow>
          (case parse_statements fl k [] st of
             None \<Rightarrow> None
           | Some (Inl e) \<Rightarrow> Some (Inl e)
           | Some (Inr (res, st1)) \<Rightarrow>
               if token st1 \<noteq> None then Some (Inl (SyntaxError (pos st1) ''EOF expected''))
               else Some (Inr res)))"

text \<open>
  What the parser still has to read: the characters of the text left, and the
  token it holds.
\<close>

definition todo :: "pstate \<Rightarrow> nat" where
  "todo st = length (s st) + (if token st = None then 0 else 1)"

section \<open>Fresh names and the comparisons of a check\<close>

text \<open>
  \<open>gen_index x\<close> is the counter value \<open>k\<close> for which \<^verbatim>\<open>Lambda.__eq__\<close> makes the
  name \<open>x\<close>, when there is one. A node is clean from \<open>n\<close> when it holds no name
  that the counter can still make once it has reached \<open>n\<close>.
\<close>

definition gen_index :: "string \<Rightarrow> nat option" where
  "gen_index x =
     (case x of
        [] \<Rightarrow> None
      | c # ds \<Rightarrow>
          if c = CHR ''x'' \<and> str_nat (nat_of_str ds) = ds then Some (nat_of_str ds) else None)"

definition clean_from :: "nat \<Rightarrow> node \<Rightarrow> bool" where
  "clean_from n t = (\<forall>x \<in> names t. case gen_index x of None \<Rightarrow> True | Some k \<Rightarrow> k < n)"

text \<open>
  The calls of \<open>node_eq\<close>, as a relation: \<open>compared a b n x y m\<close> says that the
  check \<^verbatim>\<open>a == b\<close>, begun with the counter at \<open>n\<close>, evaluates \<^verbatim>\<open>x == y\<close> with the
  counter at \<open>m\<close>. The rules follow the equations of \<open>node_eq\<close>: the bodies of two
  abstractions after the fresh variable is substituted, the functions of two
  applications, and their arguments when the functions were found equal.
\<close>

inductive compared :: "node \<Rightarrow> node \<Rightarrow> nat \<Rightarrow> node \<Rightarrow> node \<Rightarrow> nat \<Rightarrow> bool" where
  cmp_here: "compared a b n a b n"
| cmp_body: "subst body v (Var (unique_arg n)) = Inr l \<Longrightarrow>
     subst body' w (Var (unique_arg n)) = Inr r \<Longrightarrow>
     compared l r (Suc n) x y m \<Longrightarrow> compared (Lambda v body) (Lambda w body') n x y m"
| cmp_fun: "compared f g n x y m \<Longrightarrow> compared (Apply f a) (Apply g c) n x y m"
| cmp_arg: "node_eq f g n = (Inr True, n1) \<Longrightarrow> compared a c n1 x y m \<Longrightarrow>
     compared (Apply f a) (Apply g c) n x y m"




text \<open>Renaming every identifier of a node.\<close>

fun ren :: "(string \<Rightarrow> string) \<Rightarrow> node \<Rightarrow> node" where
  "ren f NoneN = NoneN"
| "ren f (Lambda v body) = Lambda (f v) (ren f body)"
| "ren f (Apply g x) = Apply (ren f g) (ren f x)"
| "ren f (Val c) = Val c"
| "ren f (Var x) = Var (f x)"

section \<open>Properties of the reduction engine\<close>

text \<open>
  C1. A single step on \<open>Apply (Lambda v body) arg\<close> returns exactly what
  \<open>subst body v arg\<close> returns (the body with \<open>arg\<close> copied in for the free
  occurrences of \<open>v\<close>, or the error \<open>subst\<close> raises), and draws nothing from the
  counter.
\<close>

theorem beta_step_redex:
  "beta_step (Apply (Lambda v body) arg) n = (subst body v arg, n)"
  by (simp add: beta_redex_def)

text \<open>
  C3. \<open>subst\<close> on \<open>Lambda p body\<close> returns the abstraction itself when the name
  substituted is \<open>p\<close>. For any other name it substitutes in the body and rebuilds
  the abstraction on the same parameter \<open>p\<close>, whatever the replacement \<open>r\<close> is:
  nothing is renamed, so a free \<open>p\<close> of \<open>r\<close> ends up bound (the instance below
  shows one).
\<close>

theorem subst_Lambda:
  "subst (Lambda p body) p r = Inr (Lambda p body) \<and>
   (n \<noteq> p \<longrightarrow>
      subst (Lambda p body) n r =
        (case subst body n r of Inl e \<Rightarrow> Inl e | Inr b \<Rightarrow> Inr (Lambda p b)))"
  by simp

theorem subst_Lambda_witness:
  "''x'' \<noteq> ''y'' \<and> ''y'' \<in> free_vars (Var ''y'') \<and>
   subst (Lambda ''y'' (Var ''x'')) ''x'' (Var ''y'') = Inr (Lambda ''y'' (Var ''y'')) \<and>
   ''y'' \<notin> free_vars (Lambda ''y'' (Var ''y''))"
  using subst_Lambda [of "''y''" "Var ''x''" "Var ''y''" "''x''"] by simp

subsection \<open>The loop of \<^verbatim>\<open>beta_left\<close>\<close>

lemma iterates_step: "iterates t n p m q m1 \<Longrightarrow> beta_step p m = (Inr q, m1)"
  by (induction rule: iterates.induct) auto

lemma iterates_loop:
  "iterates t n p m q m1 \<Longrightarrow> beta_left t n = beta_left_loop p q m1"
proof (induction rule: iterates.induct)
  case (it_first t n q n1)
  then show ?case by (simp add: beta_left_def)
next
  case (it_next t n p m q m1 m2 q' m3)
  then show ?case by (subst (asm) beta_left_loop.simps) simp
qed

lemma loop_result_aux:
  assumes "beta_left_loop p q m1 = Some y"
  shows "y = (Inr r, n') \<Longrightarrow> iterates t n p m q m1 \<Longrightarrow>
    \<exists>p' m' m1'. iterates t n p' m' r m1' \<and> node_eq p' r m1' = (Inr True, n')"
  using assms
proof (induction arbitrary: m rule: beta_left_loop.raw_induct [rotated 1, consumes 1, case_names unfold])
  case (unfold loop p q m1 y)
  obtain res k where eq: "node_eq p q m1 = (res, k)" by (cases "node_eq p q m1")
  show ?case
  proof (cases res)
    case (Inl e)
    with unfold.hyps(1) unfold.prems(1) eq show ?thesis by simp
  next
    case (Inr same)
    show ?thesis
    proof (cases same)
      case True
      with unfold.hyps(1) unfold.prems(1) eq Inr have "r = q" "n' = k" by simp_all
      with unfold.prems(2) eq Inr True show ?thesis by auto
    next
      case False
      obtain res2 k2 where st: "beta_step q k = (res2, k2)" by (cases "beta_step q k")
      show ?thesis
      proof (cases res2)
        case (Inl e)
        with unfold.hyps(1) unfold.prems(1) eq Inr False st show ?thesis by simp
      next
        case q': (Inr q')
        with unfold.hyps(1) eq Inr False st have "loop q q' k2 = Some y" by simp
        moreover have "iterates t n q k q' k2"
          using unfold.prems(2) eq Inr False st q' by (auto intro: iterates.it_next)
        ultimately show ?thesis using unfold.prems(1) by (intro unfold.IH)
      qed
    qed
  qed
qed

lemma loop_result:
  "beta_left_loop p q m1 = Some (Inr r, n') \<Longrightarrow> iterates t n p m q m1 \<Longrightarrow>
   \<exists>p' m' m1'. iterates t n p' m' r m1' \<and> node_eq p' r m1' = (Inr True, n')"
  by (rule loop_result_aux) auto

text \<open>
  The loop in terms of \<^verbatim>\<open>==\<close>: \<^verbatim>\<open>beta_left\<close> returns \<open>r\<close> exactly when its loop,
  stepping from \<open>t\<close> and finding every earlier pair of consecutive iterates
  unequal by \<^verbatim>\<open>==\<close>, reaches an iterate \<open>p\<close> whose step is \<open>r\<close> and finds \<open>p\<close> and
  \<open>r\<close> equal by \<^verbatim>\<open>==\<close>. Whether that pair is equal up to renaming is another
  matter, settled below.
\<close>

theorem beta_left_result:
  "beta_left t n = Some (Inr r, n') \<longleftrightarrow>
   (\<exists>p m m1. iterates t n p m r m1 \<and> beta_step p m = (Inr r, m1) \<and>
      node_eq p r m1 = (Inr True, n'))"
proof
  assume a: "beta_left t n = Some (Inr r, n')"
  obtain res k where st: "beta_step t n = (res, k)" by (cases "beta_step t n")
  show "\<exists>p m m1. iterates t n p m r m1 \<and> beta_step p m = (Inr r, m1) \<and>
      node_eq p r m1 = (Inr True, n')"
  proof (cases res)
    case (Inl e)
    with a st show ?thesis by (simp add: beta_left_def)
  next
    case (Inr q)
    with st have it: "iterates t n t n q k" by (auto intro: iterates.it_first)
    from a st Inr have "beta_left_loop t q k = Some (Inr r, n')" by (simp add: beta_left_def)
    from loop_result [OF this it] show ?thesis by (blast dest: iterates_step)
  qed
next
  assume "\<exists>p m m1. iterates t n p m r m1 \<and> beta_step p m = (Inr r, m1) \<and>
      node_eq p r m1 = (Inr True, n')"
  then obtain p m m1 where it: "iterates t n p m r m1" and eq: "node_eq p r m1 = (Inr True, n')"
    by blast
  from iterates_loop [OF it] have "beta_left t n = beta_left_loop p r m1" .
  also have "\<dots> = Some (Inr r, n')" using eq by (subst beta_left_loop.simps) simp
  finally show "beta_left t n = Some (Inr r, n')" .
qed

theorem beta_left_result_witness:
  "beta_left (Apply (Lambda ''x'' (Var ''x'')) (Val (IntV 5))) 1 = Some (Inr (Val (IntV 5)), 1) \<and>
   (\<exists>p m m1. iterates (Apply (Lambda ''x'' (Var ''x'')) (Val (IntV 5))) 1 p m (Val (IntV 5)) m1 \<and>
      beta_step p m = (Inr (Val (IntV 5)), m1) \<and>
      node_eq p (Val (IntV 5)) m1 = (Inr True, 1))"
proof -
  have "beta_left (Apply (Lambda ''x'' (Var ''x'')) (Val (IntV 5))) 1 = Some (Inr (Val (IntV 5)), 1)"
    by code_simp
  with beta_left_result [of "Apply (Lambda ''x'' (Var ''x'')) (Val (IntV 5))" 1 "Val (IntV 5)" 1]
  show ?thesis by simp
qed


subsection \<open>Inlining the environment\<close>

lemma process_known_subst:
  "process_known known t n = (substitute_bindings known t, n)"
proof (induction known arbitrary: t)
  case Nil
  show ?case by simp
next
  case (Cons kv known)
  obtain key val where kv: "kv = (key, val)" by (cases kv)
  show ?case
  proof (cases "subst t key val")
    case (Inl e)
    with kv show ?thesis by (simp add: beta_redex_def)
  next
    case (Inr t')
    with kv Cons.IH [of t'] show ?thesis by (simp add: beta_redex_def)
  qed
qed

text \<open>
  C9. \<^verbatim>\<open>process_term\<close> first replaces the term, for each pair of the environment
  in order, by one step of \<open>Apply (Lambda name term) value\<close>, which is
  \<open>subst term name value\<close>; the counter is untouched. Only the term left when
  every pair has been applied goes to \<^verbatim>\<open>beta_left\<close> (an error of a substitution
  ends the run before it).
\<close>

theorem process_term_inlines:
  "process_known [] term n = (Inr term, n) \<and>
   process_known ((name, value) # known) term n =
     (case beta_step (Apply (Lambda name term) value) n of
        (Inl e, n1) \<Rightarrow> (Inl e, n1)
      | (Inr t, n1) \<Rightarrow> process_known known t n1) \<and>
   beta_step (Apply (Lambda name term) value) n = (subst term name value, n) \<and>
   process_known known term n = (substitute_bindings known term, n) \<and>
   process_term known term n =
     (case substitute_bindings known term of
        Inl e \<Rightarrow> Some (Inl e, n)
      | Inr t \<Rightarrow> beta_left t n)"
  by (simp add: process_term_def process_known_subst beta_redex_def split: sum.splits)

section \<open>Properties of the equality check\<close>

lemma subst_proper:
  "proper t \<Longrightarrow> proper e \<Longrightarrow> \<exists>t'. subst t v e = Inr t' \<and> proper t'"
  by (induction t) (auto simp: copy_proper)

lemma subst_Inr_proper: "subst t v e = Inr t' \<Longrightarrow> proper t \<Longrightarrow> proper t'"
  by (induction t arbitrary: t') (auto split: sum.splits if_splits dest: copy_Inr)

lemma names_subst: "subst t v e = Inr t' \<Longrightarrow> names t' \<subseteq> names t \<union> names e"
proof (induction t arbitrary: t')
  case (Lambda x b)
  then show ?case by (fastforce split: sum.splits if_splits)
next
  case (Apply f a)
  then show ?case by (fastforce split: sum.splits if_splits)
next
  case (Var x)
  then show ?case by (auto split: if_splits dest: copy_Inr)
qed auto

lemma node_eq_counter: "node_eq a b n = (r, n') \<Longrightarrow> n \<le> n'"
proof (induction a b n arbitrary: r n' rule: node_eq.induct)
  case (1 other n)
  then show ?case by simp
next
  case (2 v body other n)
  show ?case
  proof (cases other)
    case (Lambda w body')
    show ?thesis
    proof (cases "subst body v (Var (unique_arg n))")
      case (Inl e)
      with 2(2) Lambda show ?thesis by auto
    next
      case l: (Inr l)
      show ?thesis
      proof (cases "subst body' w (Var (unique_arg n))")
        case (Inl e)
        with 2(2) Lambda l show ?thesis by auto
      next
        case (Inr r')
        with 2(2) Lambda l have "node_eq l r' (Suc n) = (r, n')" by simp
        from 2(1)[OF Lambda l Inr this] show ?thesis by simp
      qed
    qed
  qed (use 2(2) in auto)
next
  case (3 f x other n)
  show ?case
  proof (cases other)
    case (Apply g y)
    obtain r1 n1 where e1: "node_eq f g n = (r1, n1)" by (cases "node_eq f g n")
    from 3(1)[OF Apply e1] have le1: "n \<le> n1" .
    show ?thesis
    proof (cases r1)
      case (Inl e)
      with 3(3) Apply e1 le1 show ?thesis by auto
    next
      case (Inr b)
      show ?thesis
      proof (cases b)
        case True
        with 3(3) Apply e1 Inr have "node_eq x y n1 = (r, n')" by simp
        from 3(2)[OF Apply e1[symmetric] Inr True this] le1 show ?thesis by simp
      next
        case False
        with 3(3) Apply e1 Inr le1 show ?thesis by auto
      qed
    qed
  qed (use 3(3) in auto)
next
  case (4 c other n)
  then show ?case by (auto split: node.splits)
next
  case (5 a other n)
  then show ?case by (auto split: node.splits)
qed

lemma val_eq_refl: "val_eq c c"
  by (cases c) (auto split: pyfloat.splits elim: val_eq.elims)

lemma val_eq_sym: "val_eq c d = val_eq d c"
  by (induction c d rule: val_eq.induct) auto

lemma node_eq_refl_aux:
  "proper t \<Longrightarrow> \<exists>n'. node_eq t t n = (Inr True, n')"
proof (induction t arbitrary: n rule: measure_induct_rule [of size])
  case (less t)
  show ?case
  proof (cases t)
    case NoneN
    with less.prems show ?thesis by simp
  next
    case (Lambda v body)
    with less.prems have pb: "proper body" by simp
    from subst_proper [OF pb, of "Var (unique_arg n)" v]
    obtain l where l: "subst body v (Var (unique_arg n)) = Inr l" and pl: "proper l"
      by auto
    from subst_Var_size [OF l] Lambda have "size l < size t" by simp
    from less.IH [OF this pl, of "Suc n"] l Lambda show ?thesis by simp
  next
    case (Apply f x)
    with less.prems have pf: "proper f" and px: "proper x" by simp_all
    from Apply have "size f < size t" "size x < size t" by simp_all
    from less.IH [OF this(1) pf, of n] obtain n1 where n1: "node_eq f f n = (Inr True, n1)"
      by auto
    from less.IH [OF \<open>size x < size t\<close> px, of n1] n1 Apply show ?thesis by simp
  next
    case (Val c)
    then show ?thesis by (simp add: val_eq_refl)
  next
    case (Var a)
    then show ?thesis by simp
  qed
qed

lemma node_eq_sym_aux: "node_eq a b n = node_eq b a n"
proof (induction a arbitrary: b n rule: measure_induct_rule [of size])
  case (less a)
  show ?case
  proof (cases a)
    case NoneN
    then show ?thesis by (cases b) auto
  next
    case la: (Lambda v body)
    show ?thesis
    proof (cases b)
      case lb: (Lambda w body')
      show ?thesis
      proof (cases "subst body v (Var (unique_arg n))")
        case (Inl e)
        then have "e = AttributeError" by (rule subst_AttributeError)
        with Inl la lb show ?thesis
          by (auto split: sum.splits dest: subst_AttributeError)
      next
        case l: (Inr l)
        show ?thesis
        proof (cases "subst body' w (Var (unique_arg n))")
          case (Inl e)
          with l la lb show ?thesis by simp
        next
          case (Inr r)
          from subst_Var_size [OF l] la have "size l < size a" by simp
          from less.IH [OF this, of r "Suc n"] l Inr la lb show ?thesis by simp
        qed
      qed
    qed (use la in auto)
  next
    case aa: (Apply f x)
    show ?thesis
    proof (cases b)
      case ab: (Apply g y)
      from aa have sf: "size f < size a" and sx: "size x < size a" by simp_all
      have "node_eq f g n = node_eq g f n" by (rule less.IH [OF sf])
      moreover have "\<And>m. node_eq x y m = node_eq y x m" by (rule less.IH [OF sx])
      ultimately show ?thesis using aa ab by (simp split: prod.splits sum.splits)
    qed (use aa in auto)
  next
    case (Val c)
    then show ?thesis by (cases b) (auto simp: val_eq_sym)
  next
    case (Var x)
    then show ?thesis by (cases b) auto
  qed
qed

lemma digit_val_digit_char: "d < 10 \<Longrightarrow> digit_val (digit_char d) = d"
  by (simp add: digit_val_def digit_char_def)

lemma nat_of_str_str_nat: "nat_of_str (str_nat n) = n"
proof (induction n rule: str_nat.induct)
  case (1 n)
  show ?case
  proof (cases "n < 10")
    case True
    then show ?thesis
      by (subst str_nat.simps) (simp add: nat_of_str_def digit_val_digit_char)
  next
    case False
    with 1 have "nat_of_str (str_nat (n div 10)) = n div 10" by simp
    with False show ?thesis
      by (subst str_nat.simps) (simp add: nat_of_str_def digit_val_digit_char)
  qed
qed

lemma unique_arg_inj: "unique_arg m = unique_arg n \<Longrightarrow> m = n"
  by (metis nat_of_str_str_nat unique_arg_def list.inject)

lemma gen_index_unique_arg: "gen_index x = Some k \<longleftrightarrow> x = unique_arg k"
  by (cases x) (auto simp: gen_index_def unique_arg_def nat_of_str_str_nat)

lemma clean_from_iff: "clean_from n t \<longleftrightarrow> (\<forall>k\<ge>n. unique_arg k \<notin> names t)"
proof
  assume c: "clean_from n t"
  show "\<forall>k\<ge>n. unique_arg k \<notin> names t"
  proof (intro allI impI notI)
    fix k assume "n \<le> k" "unique_arg k \<in> names t"
    with c have "case gen_index (unique_arg k) of None \<Rightarrow> True | Some j \<Rightarrow> j < n"
      by (auto simp: clean_from_def)
    moreover have "gen_index (unique_arg k) = Some k" by (simp add: gen_index_unique_arg)
    ultimately show False using \<open>n \<le> k\<close> by simp
  qed
next
  assume a: "\<forall>k\<ge>n. unique_arg k \<notin> names t"
  show "clean_from n t"
    unfolding clean_from_def
  proof
    fix x assume x: "x \<in> names t"
    show "case gen_index x of None \<Rightarrow> True | Some k \<Rightarrow> k < n"
    proof (cases "gen_index x")
      case None
      then show ?thesis by simp
    next
      case (Some k)
      then have "x = unique_arg k" by (simp add: gen_index_unique_arg)
      with a x have "k < n" by (meson not_le)
      with Some show ?thesis by simp
    qed
  qed
qed

lemma ren_copy: "copy (ren f t) = map_sum (\<lambda>e. e) (ren f) (copy t)"
  by (induction t) (auto split: sum.splits)

lemma ren_subst:
  "inj_on f (insert v (names t)) \<Longrightarrow>
   subst (ren f t) (f v) (ren f e) = map_sum (\<lambda>e. e) (ren f) (subst t v e)"
proof (induction t)
  case NoneN
  show ?case by simp
next
  case (Lambda w b)
  from Lambda.prems have "inj_on f (insert v (names b))"
    by (rule inj_on_subset) auto
  from Lambda.IH [OF this] have ih: "subst (ren f b) (f v) (ren f e) = map_sum (\<lambda>e. e) (ren f) (subst b v e)" .
  from Lambda.prems have "f v = f w \<longleftrightarrow> v = w" by (auto simp: inj_on_def)
  with ih show ?case by (auto split: sum.splits)
next
  case (Apply g x)
  from Apply.prems have "inj_on f (insert v (names g))" "inj_on f (insert v (names x))"
    by (auto intro: inj_on_subset)
  with Apply.IH show ?case by (auto split: sum.splits)
next
  case (Val c)
  show ?case by simp
next
  case (Var x)
  from Var.prems have "f x = f v \<longleftrightarrow> x = v" by (auto simp: inj_on_def)
  then show ?case using ren_copy [of f e] by simp
qed

lemma ren_id: "(\<And>x. x \<in> names t \<Longrightarrow> f x = x) \<Longrightarrow> ren f t = t"
  by (induction t) auto

lemma ren_eq_NoneN: "ren f t = NoneN \<longleftrightarrow> t = NoneN"
  by (cases t) auto

lemma node_eq_ren:
  "inj_on f (names a \<union> names b \<union> unique_arg ` {n..}) \<Longrightarrow>
   (\<And>i. f (unique_arg (n + i)) = unique_arg (m + i)) \<Longrightarrow>
   node_eq (ren f a) (ren f b) m = (fst (node_eq a b n), snd (node_eq a b n) - n + m)"
proof (induction a b n arbitrary: m rule: node_eq.induct)
  case (1 other n)
  show ?case by (simp add: ren_eq_NoneN)
next
  case (2 v body other n)
  show ?case
  proof (cases other)
    case (Lambda w body')
    let ?u = "Var (unique_arg n)"
    from "2.prems"(2) [of 0] have fu: "f (unique_arg n) = unique_arg m" by simp
    have inj1: "inj_on f (insert v (names body))"
      using "2.prems"(1) by (rule inj_on_subset) auto
    have inj2: "inj_on f (insert w (names body'))"
      by (rule inj_on_subset [OF "2.prems"(1)]) (auto simp: Lambda)
    have s1: "subst (ren f body) (f v) (Var (unique_arg m)) = map_sum (\<lambda>e. e) (ren f) (subst body v ?u)"
      using ren_subst [OF inj1, of ?u] fu by simp
    have s2: "subst (ren f body') (f w) (Var (unique_arg m)) = map_sum (\<lambda>e. e) (ren f) (subst body' w ?u)"
      using ren_subst [OF inj2, of ?u] fu by simp
    show ?thesis
    proof (cases "subst body v ?u")
      case (Inl e)
      with Lambda s1 show ?thesis by simp
    next
      case l: (Inr l)
      show ?thesis
      proof (cases "subst body' w ?u")
        case (Inl e)
        with Lambda l s1 s2 show ?thesis by simp
      next
        case r: (Inr r)
        have sub: "names l \<union> names r \<union> unique_arg ` {Suc n..}
            \<subseteq> names (Lambda v body) \<union> names other \<union> unique_arg ` {n..}"
          using names_subst [OF l] names_subst [OF r] Lambda by auto
        have inj': "inj_on f (names l \<union> names r \<union> unique_arg ` {Suc n..})"
          by (rule inj_on_subset [OF "2.prems"(1) sub])
        have sh: "\<And>i. f (unique_arg (Suc n + i)) = unique_arg (Suc m + i)"
          using "2.prems"(2) [of "Suc _"] by simp
        from "2.IH" [OF Lambda l r inj' sh]
        have ih: "node_eq (ren f l) (ren f r) (Suc m) =
            (fst (node_eq l r (Suc n)), snd (node_eq l r (Suc n)) - Suc n + Suc m)" .
        have "Suc n \<le> snd (node_eq l r (Suc n))"
          by (rule node_eq_counter [of l r "Suc n" "fst (node_eq l r (Suc n))"]) simp
        with ih Lambda l r s1 s2 show ?thesis by simp
      qed
    qed
  qed simp_all
next
  case (3 g x other n)
  show ?case
  proof (cases other)
    case (Apply h y)
    obtain r1 n1 where e1: "node_eq g h n = (r1, n1)" by (cases "node_eq g h n")
    from node_eq_counter [OF e1] have le1: "n \<le> n1" .
    have injg: "inj_on f (names g \<union> names h \<union> unique_arg ` {n..})"
      by (rule inj_on_subset [OF "3.prems"(1)]) (auto simp: Apply)
    from "3.IH"(1) [OF Apply injg "3.prems"(2)] e1
    have ih1: "node_eq (ren f g) (ren f h) m = (r1, n1 - n + m)" by simp
    show ?thesis
    proof (cases r1)
      case (Inl e)
      with Apply e1 ih1 show ?thesis by simp
    next
      case (Inr b)
      show ?thesis
      proof (cases b)
        case False
        with Apply e1 ih1 Inr show ?thesis by simp
      next
        case True
        have injx: "inj_on f (names x \<union> names y \<union> unique_arg ` {n1..})"
          by (rule inj_on_subset [OF "3.prems"(1)]) (use le1 in \<open>auto simp: Apply\<close>)
        have sh: "\<And>i. f (unique_arg (n1 + i)) = unique_arg (n1 - n + m + i)"
        proof -
          fix i
          from le1 have "n1 + i = n + (n1 - n + i)" by simp
          then have "f (unique_arg (n1 + i)) = unique_arg (m + (n1 - n + i))"
            using "3.prems"(2) [of "n1 - n + i"] by simp
          then show "f (unique_arg (n1 + i)) = unique_arg (n1 - n + m + i)"
            by (simp add: add.commute add.left_commute)
        qed
        from "3.IH"(2) [OF Apply e1 [symmetric] Inr True injx sh]
        have ih2: "node_eq (ren f x) (ren f y) (n1 - n + m) =
           (fst (node_eq x y n1), snd (node_eq x y n1) - n1 + (n1 - n + m))" .
        have "n1 \<le> snd (node_eq x y n1)"
          by (rule node_eq_counter [of x y n1 "fst (node_eq x y n1)"]) simp
        with ih2 le1 Apply e1 ih1 Inr True show ?thesis by simp
      qed
    qed
  qed simp_all
next
  case (4 c other n)
  show ?case by (cases other) simp_all
next
  case (5 a other n)
  show ?case
  proof (cases other)
    case (Var b)
    from "5.prems"(1) Var have "f a = f b \<longleftrightarrow> a = b" by (auto simp: inj_on_def)
    with Var show ?thesis by simp
  qed simp_all
qed

lemma node_eq_counter_indep:
  assumes a: "clean_from n a" and b: "clean_from n b" and nm: "n \<le> m"
  shows "fst (node_eq a b m) = fst (node_eq a b n)"
proof -
  define f where "f x = (case gen_index x of
      None \<Rightarrow> x | Some k \<Rightarrow> if n \<le> k then unique_arg (k - n + m) else x)" for x
  have f_gen: "f (unique_arg k) = unique_arg (k - n + m)" if "n \<le> k" for k
  proof -
    have "gen_index (unique_arg k) = Some k" by (simp add: gen_index_unique_arg)
    with that show ?thesis by (simp add: f_def)
  qed
  have f_name: "f x = x" if "x \<in> names a \<union> names b" for x
  proof (cases "gen_index x")
    case None
    then show ?thesis by (simp add: f_def)
  next
    case (Some k)
    with that a b have "k < n" by (auto simp: clean_from_def)
    with Some show ?thesis by (simp add: f_def)
  qed
  have not_gen: "x \<noteq> unique_arg k" if "x \<in> names a \<union> names b" "n \<le> k" for x k
    using that a b by (auto simp: clean_from_iff)
  have inj: "inj_on f (names a \<union> names b \<union> unique_arg ` {n..})"
  proof (rule inj_onI)
    fix x y
    assume x: "x \<in> names a \<union> names b \<union> unique_arg ` {n..}"
      and y: "y \<in> names a \<union> names b \<union> unique_arg ` {n..}"
      and eq: "f x = f y"
    consider (nn) "x \<in> names a \<union> names b" "y \<in> names a \<union> names b"
      | (ng) k where "x \<in> names a \<union> names b" "y = unique_arg k" "n \<le> k"
      | (gn) k where "y \<in> names a \<union> names b" "x = unique_arg k" "n \<le> k"
      | (gg) j k where "x = unique_arg j" "n \<le> j" "y = unique_arg k" "n \<le> k"
      using x y by auto
    then show "x = y"
    proof cases
      case nn
      with eq show ?thesis by (simp add: f_name)
    next
      case ng
      with eq have "x = unique_arg (k - n + m)" by (simp add: f_name f_gen)
      moreover from nm have "n \<le> k - n + m" by simp
      ultimately show ?thesis using not_gen [OF ng(1)] by blast
    next
      case gn
      with eq have "y = unique_arg (k - n + m)" by (simp add: f_name f_gen)
      moreover from nm have "n \<le> k - n + m" by simp
      ultimately show ?thesis using not_gen [OF gn(1)] by blast
    next
      case gg
      with eq have "unique_arg (j - n + m) = unique_arg (k - n + m)" by (simp add: f_gen)
      then have "j - n + m = k - n + m" by (rule unique_arg_inj)
      with gg(2,4) have "j = k" by arith
      with gg show ?thesis by simp
    qed
  qed
  have shift: "f (unique_arg (n + i)) = unique_arg (m + i)" for i
    using f_gen [of "n + i"] by (simp add: add.commute)
  have "ren f a = a" "ren f b = b"
    by (rule ren_id, simp add: f_name)+
  with node_eq_ren [OF inj shift] show ?thesis by simp
qed

lemma clean_from_mono: "clean_from n t \<Longrightarrow> n \<le> m \<Longrightarrow> clean_from m t"
  by (auto simp: clean_from_iff)

lemma clean_from_subst:
  assumes c: "clean_from n (Lambda v body)" and s: "subst body v (Var (unique_arg n)) = Inr l"
  shows "clean_from (Suc n) l"
  unfolding clean_from_iff
proof (intro allI impI notI)
  fix k assume k: "Suc n \<le> k" and mem: "unique_arg k \<in> names l"
  from names_subst [OF s] mem have "unique_arg k \<in> names body \<or> unique_arg k = unique_arg n"
    by auto
  then show False
  proof
    assume "unique_arg k \<in> names body"
    with c k show False by (auto simp: clean_from_iff)
  next
    assume "unique_arg k = unique_arg n"
    then have "k = n" by (rule unique_arg_inj)
    with k show False by simp
  qed
qed

lemma compared_clean:
  "compared a b n x y m \<Longrightarrow> clean_from n a \<Longrightarrow> clean_from n b \<Longrightarrow>
   clean_from m x \<and> clean_from m y"
proof (induction rule: compared.induct)
  case (cmp_here a b n)
  then show ?case by simp
next
  case (cmp_body body v n l body' w r x y m)
  from clean_from_subst [OF cmp_body.prems(1) cmp_body.hyps(1)]
    clean_from_subst [OF cmp_body.prems(2) cmp_body.hyps(2)]
  show ?case by (rule cmp_body.IH)
next
  case (cmp_fun f g n x y m a c)
  from cmp_fun.prems have "clean_from n f" "clean_from n g" by (auto simp: clean_from_def)
  then show ?case by (rule cmp_fun.IH)
next
  case (cmp_arg f g n n1 a c x y m)
  from node_eq_counter [OF cmp_arg.hyps(1)] have "n \<le> n1" .
  moreover from cmp_arg.prems have "clean_from n a" "clean_from n c" by (auto simp: clean_from_def)
  ultimately have "clean_from n1 a" "clean_from n1 c" by (auto intro: clean_from_mono)
  then show ?case by (rule cmp_arg.IH)
qed

text \<open>
  Where the counter does deliver a fresh name: when a check \<^verbatim>\<open>a == b\<close> begins
  with the counter at \<open>n\<close> on nodes that hold no name the counter can still
  make, the variable substituted at each pair of abstractions it compares is
  none of the names of that pair.
\<close>

theorem fresh_variable_distinct:
  "clean_from n a \<Longrightarrow> clean_from n b \<Longrightarrow> compared a b n (Lambda v body) (Lambda w body') m \<Longrightarrow>
   unique_arg m \<notin> names (Lambda v body) \<union> names (Lambda w body') \<and>
   node_eq (Lambda v body) (Lambda w body') m =
     (case subst body v (Var (unique_arg m)) of
        Inl e \<Rightarrow> (Inl e, Suc m)
      | Inr l \<Rightarrow>
          (case subst body' w (Var (unique_arg m)) of
             Inl e \<Rightarrow> (Inl e, Suc m)
           | Inr r \<Rightarrow> node_eq l r (Suc m)))"
proof -
  assume a: "clean_from n a" and b: "clean_from n b"
    and c: "compared a b n (Lambda v body) (Lambda w body') m"
  from compared_clean [OF c a b]
  have "clean_from m (Lambda v body)" "clean_from m (Lambda w body')" by simp_all
  then have "unique_arg m \<notin> names (Lambda v body) \<union> names (Lambda w body')"
    unfolding clean_from_iff by blast
  then show ?thesis by simp
qed

theorem fresh_variable_distinct_witness:
  "clean_from 1 (Lambda ''f'' (Lambda ''y'' (Var ''f''))) \<and>
   clean_from 1 (Lambda ''g'' (Lambda ''z'' (Var ''g''))) \<and>
   compared (Lambda ''f'' (Lambda ''y'' (Var ''f''))) (Lambda ''g'' (Lambda ''z'' (Var ''g''))) 1
     (Lambda ''y'' (Var ''x1'')) (Lambda ''z'' (Var ''x1'')) 2 \<and>
   unique_arg 2 = ''x2'' \<and>
   unique_arg 2 \<notin> names (Lambda ''y'' (Var ''x1'')) \<union> names (Lambda ''z'' (Var ''x1''))"
proof -
  have c: "clean_from 1 (Lambda ''f'' (Lambda ''y'' (Var ''f'')))"
    "clean_from 1 (Lambda ''g'' (Lambda ''z'' (Var ''g'')))"
    by (simp_all add: clean_from_def gen_index_def)
  have s1: "subst (Lambda ''y'' (Var ''f'')) ''f'' (Var (unique_arg 1)) = Inr (Lambda ''y'' (Var ''x1''))"
    by code_simp
  have s2: "subst (Lambda ''z'' (Var ''g'')) ''g'' (Var (unique_arg 1)) = Inr (Lambda ''z'' (Var ''x1''))"
    by code_simp
  have "compared (Lambda ''f'' (Lambda ''y'' (Var ''f''))) (Lambda ''g'' (Lambda ''z'' (Var ''g''))) 1
     (Lambda ''y'' (Var ''x1'')) (Lambda ''z'' (Var ''x1'')) (Suc 1)"
    by (rule compared.cmp_body [OF s1 s2 compared.cmp_here])
  then have cmp: "compared (Lambda ''f'' (Lambda ''y'' (Var ''f''))) (Lambda ''g'' (Lambda ''z'' (Var ''g''))) 1
     (Lambda ''y'' (Var ''x1'')) (Lambda ''z'' (Var ''x1'')) 2"
    by (simp only: Suc_1)
  have u: "unique_arg 2 = ''x2''" by code_simp
  from fresh_variable_distinct [OF c cmp] c cmp u show ?thesis by simp
qed


text \<open>
  What does hold of \<^verbatim>\<open>==\<close>: \<^verbatim>\<open>t == t\<close> is true for every node \<open>t\<close> built from
  the four classes, whatever the counter; \<^verbatim>\<open>a == b\<close> and \<^verbatim>\<open>b == a\<close> agree when
  both begin with the same counter value; and \<^verbatim>\<open>b == a\<close> evaluated after
  \<^verbatim>\<open>a == b\<close> agrees with it when neither node holds a name the counter can
  still make.
\<close>

theorem node_eq_refl_sym:
  "(proper t \<longrightarrow> fst (node_eq t t n) = Inr True) \<and>
   node_eq a b n = node_eq b a n \<and>
   (clean_from n a \<and> clean_from n b \<longrightarrow>
      fst (node_eq b a (snd (node_eq a b n))) = fst (node_eq a b n))"
proof (intro conjI impI)
  assume "proper t"
  from node_eq_refl_aux [OF this, of n] show "fst (node_eq t t n) = Inr True" by auto
next
  show "node_eq a b n = node_eq b a n" by (rule node_eq_sym_aux)
next
  assume c: "clean_from n a \<and> clean_from n b"
  have "n \<le> snd (node_eq a b n)"
    by (rule node_eq_counter [of a b n "fst (node_eq a b n)"]) simp
  with c have "fst (node_eq b a (snd (node_eq a b n))) = fst (node_eq b a n)"
    by (intro node_eq_counter_indep) simp_all
  then show "fst (node_eq b a (snd (node_eq a b n))) = fst (node_eq a b n)"
    by (simp add: node_eq_sym_aux [of a b n])
qed

theorem node_eq_refl_sym_witness:
  "proper (Lambda ''x'' (Var ''x'')) \<and>
   fst (node_eq (Lambda ''x'' (Var ''x'')) (Lambda ''x'' (Var ''x'')) 1) = Inr True \<and>
   node_eq (Lambda ''a'' (Var ''a'')) (Lambda ''b'' (Var ''b'')) 1 =
     node_eq (Lambda ''b'' (Var ''b'')) (Lambda ''a'' (Var ''a'')) 1 \<and>
   clean_from 1 (Lambda ''a'' (Var ''a'')) \<and> clean_from 1 (Lambda ''b'' (Var ''b'')) \<and>
   fst (node_eq (Lambda ''b'' (Var ''b'')) (Lambda ''a'' (Var ''a''))
          (snd (node_eq (Lambda ''a'' (Var ''a'')) (Lambda ''b'' (Var ''b'')) 1))) =
     fst (node_eq (Lambda ''a'' (Var ''a'')) (Lambda ''b'' (Var ''b'')) 1)"
proof -
  have c: "clean_from 1 (Lambda ''a'' (Var ''a''))" "clean_from 1 (Lambda ''b'' (Var ''b''))"
    by (simp_all add: clean_from_def gen_index_def)
  with node_eq_refl_sym [of "Lambda ''x'' (Var ''x'')" 1
      "Lambda ''a'' (Var ''a'')" "Lambda ''b'' (Var ''b'')"]
  show ?thesis by simp
qed


section \<open>Properties of the lexer\<close>

lemma first_match_dquote:
  assumes "dquote \<notin> set chars" and "length chars \<noteq> 1"
  shows "first_match TOKENS (dquote # chars @ dquote # rest) = None"
proof -
  have str: "re_string (dquote # chars @ dquote # rest) = None"
  proof (cases chars)
    case Nil
    then show ?thesis by (simp add: re_string_def split: list.splits)
  next
    case (Cons c cs)
    with assms obtain d ds where "cs = d # ds" by (cases cs) auto
    with Cons assms(1) show ?thesis by (auto simp: re_string_def)
  qed
  have num: "re_number (dquote # chars @ dquote # rest) = None"
    by (simp add: re_number_def opt_sign_def dquote_def is_digit_def)
  have idt: "IDENT (dquote # chars @ dquote # rest) = None"
    by (simp add: IDENT_def ident_start_def is_letter_def SYM_def dquote_def)
  have neq: "dquote \<noteq> CHR ''(''" "dquote \<noteq> CHR '')''" "dquote \<noteq> CHR ''.''"
    "dquote \<noteq> CHR '':''" "dquote \<noteq> CHR ''@''"
    by (simp_all add: dquote_def)
  show ?thesis
    by (simp add: TOKENS_def str num idt re_char_def re_char_IDENT_def neq)
qed

lemma not_space_dquote: "\<not> is_space dquote"
  by (simp add: is_space_def dquote_def)

text \<open>
  C2. A quoted run of characters without a quote is a string token only when it
  is one character long. On the empty run and on a run of two or more
  characters no pattern of \<^verbatim>\<open>TOKENS\<close> matches, and \<^verbatim>\<open>scan\<close> raises its
  \<^verbatim>\<open>Invalid token\<close> error.
\<close>

theorem string_span_not_lexed:
  "dquote \<notin> set chars \<Longrightarrow> length chars \<noteq> 1 \<Longrightarrow>
   scan \<lparr>s = dquote # chars @ dquote # rest, pos = p, token = t, word = w\<rparr> =
     Inl (InvalidToken p (take 20 (dquote # chars @ dquote # rest)))"
  by (simp add: scan_def not_space_dquote first_match_dquote)

theorem string_span_not_lexed_witness:
  \<open>scan (start ''"ab"'') = Inl (InvalidToken 1 ''"ab"'') \<and>
   scan (start ''"".'') = Inl (InvalidToken 1 ''"".'') \<and>
   scan (start ''"a"'') = Inr \<lparr>s = [], pos = 4, token = Some TString, word = ''"a"''\<rparr>\<close>
proof -
  have \<open>scan (start ''"a"'') = Inr \<lparr>s = [], pos = 4, token = Some TString, word = ''"a"''\<rparr>\<close>
    by code_simp
  moreover from string_span_not_lexed [of "''ab''" "[]" 1 None "[]"]
  have "scan (start (dquote # ''ab'' @ [dquote])) = Inl (InvalidToken 1 (dquote # ''ab'' @ [dquote]))"
    by (simp add: start_def dquote_def)
  moreover from string_span_not_lexed [of "[]" "''.''" 1 None "[]"]
  have "scan (start (dquote # dquote # ''.'')) = Inl (InvalidToken 1 (dquote # dquote # ''.''))"
    by (simp add: start_def dquote_def)
  ultimately show ?thesis by (simp add: dquote_def)
qed

text \<open>
  C6. The offset in the error of \<^verbatim>\<open>scan\<close> is \<^verbatim>\<open>pos\<close> as it was before the white
  space was dropped, whatever the length of that white space: \<^verbatim>\<open>pos\<close> counts
  the characters of the tokens only. The offset in the error of the parser is
  the same \<^verbatim>\<open>pos\<close>: for \<^verbatim>\<open>xy\<close> the missing \<^verbatim>\<open>.\<close> is reported at 3, the
  offset after the text, and for \<^verbatim>\<open>x y\<close>, one character longer, it is
  reported at 3 as well.
\<close>

theorem invalid_token_offset:
  "((\<forall>c\<in>set ws. is_space c) \<and> rest \<noteq> [] \<and> \<not> is_space (hd rest) \<and>
      first_match TOKENS rest = None \<longrightarrow>
      scan \<lparr>s = ws @ rest, pos = p, token = t, word = w\<rparr> =
        Inl (InvalidToken p (take 20 rest))) \<and>
   parse fl (Suc (Suc (Suc (Suc k)))) ''x y'' =
     Some (Inl (SyntaxError 3 (CHR 0x27 # ''.'' @ CHR 0x27 # '' expected''))) \<and>
   parse fl (Suc (Suc (Suc k))) ''xy'' =
     Some (Inl (SyntaxError 3 (CHR 0x27 # ''.'' @ CHR 0x27 # '' expected'')))"
proof (intro conjI impI)
  assume a: "(\<forall>c\<in>set ws. is_space c) \<and> rest \<noteq> [] \<and> \<not> is_space (hd rest) \<and>
     first_match TOKENS rest = None"
  then obtain c cs where rest: "rest = c # cs" and c: "\<not> is_space c" by (cases rest) auto
  with a have "dropWhile is_space (ws @ rest) = rest" by (simp add: dropWhile_append2)
  with a show "scan \<lparr>s = ws @ rest, pos = p, token = t, word = w\<rparr> =
      Inl (InvalidToken p (take 20 rest))"
    by (simp add: scan_def)
next
  show "parse fl (Suc (Suc (Suc (Suc k)))) ''x y'' =
     Some (Inl (SyntaxError 3 (CHR 0x27 # ''.'' @ CHR 0x27 # '' expected'')))"
    by code_simp
next
  show "parse fl (Suc (Suc (Suc k))) ''xy'' =
     Some (Inl (SyntaxError 3 (CHR 0x27 # ''.'' @ CHR 0x27 # '' expected'')))"
    by code_simp
qed

theorem invalid_token_offset_witness:
  "is_space CHR '' '' \<and> \<not> is_space (hd ''~'') \<and> first_match TOKENS ''~'' = None \<and>
   scan (start ''  ~'') = Inl (InvalidToken 1 ''~'') \<and>
   scan (start ''~'') = Inl (InvalidToken 1 ''~'')"
proof -
  have sp: "\<forall>c\<in>set ''  ''. is_space c" by (simp add: is_space_def)
  have ns: "\<not> is_space (hd ''~'')" by (simp add: is_space_def)
  have fm: "first_match TOKENS ''~'' = None" by code_simp
  from invalid_token_offset [of "''  ''" "''~''" 1 None "[]"] sp ns fm
  have 1: "scan (start ''  ~'') = Inl (InvalidToken 1 ''~'')" by (simp add: start_def)
  from invalid_token_offset [of "[]" "''~''" 1 None "[]"] ns fm
  have 2: "scan (start ''~'') = Inl (InvalidToken 1 ''~'')" by (simp add: start_def)
  have "is_space CHR '' ''" by (simp add: is_space_def)
  from this ns fm 1 2 show ?thesis by (intro conjI)
qed

section \<open>Properties of the parser\<close>

lemma not_space_dot: "\<not> is_space CHR ''.''"
  by (simp add: is_space_def)

lemma first_match_dot: "first_match TOKENS (CHR ''.'' # rest) = Some (TDot, ''.'')"
  by (simp add: TOKENS_def re_char_def)

lemma scan_dot:
  assumes "\<forall>c\<in>set ws. is_space c"
  shows "scan \<lparr>s = ws @ ''.'' @ rest, pos = p, token = t, word = w\<rparr> =
         Inr \<lparr>s = rest, pos = Suc p, token = Some TDot, word = ''.''\<rparr>"
proof -
  from assms have "dropWhile is_space (ws @ CHR ''.'' # rest) = CHR ''.'' # rest"
    by (simp add: dropWhile_append2 not_space_dot)
  then show ?thesis by (simp add: scan_def first_match_dot)
qed

lemma scan_end:
  assumes "\<forall>c\<in>set ws. is_space c"
  shows "scan \<lparr>s = ws, pos = p, token = t, word = w\<rparr> =
         Inr \<lparr>s = [], pos = p, token = None, word = w\<rparr>"
proof -
  from assms have "dropWhile is_space ws = []" by simp
  then show ?thesis by (simp add: scan_def)
qed

lemma parse_expr_at_dot:
  "token st = Some TDot \<Longrightarrow> parse_expr fl (Suc k) acc st = Some (Inr (acc, st))"
  by simp

lemma parse_statements_at_dot:
  "token st = Some TDot \<Longrightarrow>
   parse_statements fl (Suc (Suc k)) res st =
     (case scan st of
        Inl e \<Rightarrow> Some (Inl e)
      | Inr st' \<Rightarrow> parse_statements fl (Suc k) (res @ [Expr NoneN]) st')"
  by (simp del: parse_statements.simps(2) parse_expr.simps add: parse_statements.simps(2) [of fl "Suc k"] parse_expr_at_dot)

lemma empty_statements:
  assumes "\<forall>ws\<in>set wss. \<forall>c\<in>set ws. is_space c" and "\<forall>c\<in>set rest. is_space c"
  shows "parse_statements fl (Suc (Suc (length wss + j))) res
           \<lparr>s = concat (map (\<lambda>ws. ws @ ''.'') wss) @ rest, pos = p, token = Some TDot, word = ''.''\<rparr> =
         Some (Inr (res @ replicate (Suc (length wss)) (Expr NoneN),
                    \<lparr>s = [], pos = p + length wss, token = None, word = ''.''\<rparr>))"
  using assms(1)
proof (induction wss arbitrary: res p)
  case Nil
  have "parse_statements fl (Suc j) (res @ [Expr NoneN])
          \<lparr>s = [], pos = p, token = None, word = ''.''\<rparr> =
        Some (Inr (res @ [Expr NoneN], \<lparr>s = [], pos = p, token = None, word = ''.''\<rparr>))"
    by simp
  then show ?case
    by (simp del: parse_statements.simps(2) add: parse_statements_at_dot scan_end [OF assms(2)])
next
  case (Cons ws wss)
  from Cons.prems have ws: "\<forall>c\<in>set ws. is_space c" and wss: "\<forall>ws\<in>set wss. \<forall>c\<in>set ws. is_space c"
    by simp_all
  have sc: "scan \<lparr>s = concat (map (\<lambda>ws. ws @ ''.'') (ws # wss)) @ rest, pos = p, token = Some TDot, word = ''.''\<rparr> =
      Inr \<lparr>s = concat (map (\<lambda>ws. ws @ ''.'') wss) @ rest, pos = Suc p, token = Some TDot, word = ''.''\<rparr>"
    using scan_dot [OF ws, of "concat (map (\<lambda>ws. ws @ ''.'') wss) @ rest" p "Some TDot" "''.''"] by simp
  let ?S0 = "\<lparr>s = concat (map (\<lambda>ws. ws @ ''.'') (ws # wss)) @ rest, pos = p, token = Some TDot, word = ''.''\<rparr>"
  have "parse_statements fl (Suc (Suc (Suc (length wss + j)))) res ?S0 =
        (case scan ?S0 of
           Inl e \<Rightarrow> Some (Inl e)
         | Inr st' \<Rightarrow> parse_statements fl (Suc (Suc (length wss + j))) (res @ [Expr NoneN]) st')"
    by (rule parse_statements_at_dot) simp
  also have "\<dots> = parse_statements fl (Suc (Suc (length wss + j))) (res @ [Expr NoneN])
           \<lparr>s = concat (map (\<lambda>ws. ws @ ''.'') wss) @ rest, pos = Suc p, token = Some TDot, word = ''.''\<rparr>"
    by (simp only: sc sum.case)
  also have "\<dots> = Some (Inr ((res @ [Expr NoneN]) @ replicate (Suc (length wss)) (Expr NoneN),
                    \<lparr>s = [], pos = Suc p + length wss, token = None, word = ''.''\<rparr>))"
    by (rule Cons.IH [OF wss])
  finally show ?case by (simp del: parse_statements.simps add: replicate_app_Cons_same)
qed

text \<open>
  C10. Where a statement begins at its \<^verbatim>\<open>.\<close>, \<^verbatim>\<open>parse_expr\<close> returns \<^verbatim>\<open>None\<close>
  at once with any bound above zero, and \<^verbatim>\<open>parse_statements\<close> appends
  \<^verbatim>\<open>None\<close> to its result and goes on after the \<^verbatim>\<open>.\<close>; no error is raised for
  the statement. A text of such statements only, with white space anywhere
  between them, parses to a list of that many \<^verbatim>\<open>None\<close>.
\<close>

theorem parse_empty_statements:
  "(token st = Some TDot \<longrightarrow>
      parse_expr fl (Suc k) NoneN st = Some (Inr (NoneN, st)) \<and>
      parse_statements fl (Suc (Suc k)) res st =
        (case scan st of
           Inl e \<Rightarrow> Some (Inl e)
         | Inr st' \<Rightarrow> parse_statements fl (Suc k) (res @ [Expr NoneN]) st')) \<and>
   ((\<forall>ws\<in>set (ws0 # wss). \<forall>c\<in>set ws. is_space c) \<and> (\<forall>c\<in>set rest. is_space c) \<longrightarrow>
      parse fl (Suc (Suc (length wss + j))) (concat (map (\<lambda>ws. ws @ ''.'') (ws0 # wss)) @ rest) =
        Some (Inr (replicate (Suc (length wss)) (Expr NoneN))))"
proof (intro conjI impI)
  assume "token st = Some TDot"
  then show "parse_expr fl (Suc k) NoneN st = Some (Inr (NoneN, st))"
    by (rule parse_expr_at_dot)
next
  assume "token st = Some TDot"
  then show "parse_statements fl (Suc (Suc k)) res st =
        (case scan st of
           Inl e \<Rightarrow> Some (Inl e)
         | Inr st' \<Rightarrow> parse_statements fl (Suc k) (res @ [Expr NoneN]) st')"
    by (rule parse_statements_at_dot)
next
  assume a: "(\<forall>ws\<in>set (ws0 # wss). \<forall>c\<in>set ws. is_space c) \<and> (\<forall>c\<in>set rest. is_space c)"
  then have ws0: "\<forall>c\<in>set ws0. is_space c" and wss: "\<forall>ws\<in>set wss. \<forall>c\<in>set ws. is_space c"
    and rest: "\<forall>c\<in>set rest. is_space c" by simp_all
  have sc: "scan (start (concat (map (\<lambda>ws. ws @ ''.'') (ws0 # wss)) @ rest)) =
      Inr \<lparr>s = concat (map (\<lambda>ws. ws @ ''.'') wss) @ rest, pos = Suc 1, token = Some TDot, word = ''.''\<rparr>"
    using scan_dot [OF ws0, of "concat (map (\<lambda>ws. ws @ ''.'') wss) @ rest" 1 None "[]"]
    by (simp add: start_def)
  show "parse fl (Suc (Suc (length wss + j))) (concat (map (\<lambda>ws. ws @ ''.'') (ws0 # wss)) @ rest) =
        Some (Inr (replicate (Suc (length wss)) (Expr NoneN)))"
    unfolding parse_def sc
    using empty_statements [OF wss rest, of fl j "[]" "Suc 1"] by simp
qed

theorem parse_empty_statements_witness:
  "parse (\<lambda>w. Fin 0) (Suc (Suc 0)) ''.'' = Some (Inr [Expr NoneN]) \<and>
   parse (\<lambda>w. Fin 0) (Suc (Suc (Suc 0))) '' . .'' = Some (Inr [Expr NoneN, Expr NoneN])"
proof -
  have 1: "is_space CHR '' ''" by (simp add: is_space_def)
  from parse_empty_statements [of "start ''x''" "\<lambda>w. Fin 0" 0 "[]" "[]" "[]" "[]" 0]
  have "parse (\<lambda>w. Fin 0) (Suc (Suc 0)) ''.'' = Some (Inr [Expr NoneN])" by simp
  moreover from 1 parse_empty_statements [of "start ''x''" "\<lambda>w. Fin 0" 0 "[]" "'' ''" "['' '']" "[]" 0]
  have "parse (\<lambda>w. Fin 0) (Suc (Suc (Suc 0))) '' . .'' = Some (Inr [Expr NoneN, Expr NoneN])" by simp
  ultimately show ?thesis by simp
qed







section \<open>The bound of the parser is never reached\<close>

text \<open>A result does not change when the bound grows.\<close>

lemma parse_expr_lambda_mono:
  "(parse_expr fl k acc st = Some r \<longrightarrow> parse_expr fl (k + j) acc st = Some r)"
  "(parse_lambda fl k ll st = Some r' \<longrightarrow> parse_lambda fl (k + j) ll st = Some r')"
proof (induction fl k acc st and fl k ll st arbitrary: r and r' rule: parse_expr_parse_lambda.induct)
  case (1 fl acc st)
  show ?case by simp
next
  case (2 fl k acc st)
  show ?case
  proof
    assume a: "parse_expr fl (Suc k) acc st = Some r"
    show "parse_expr fl (Suc k + j) acc st = Some r"
    proof (cases "token st")
      case None
      with a show ?thesis by auto
    next
      case (Some tk)
      show ?thesis
      proof (cases tk)
        case TLParen
        show ?thesis
        proof (cases "scan st")
          case (Inl e)
          with a Some TLParen show ?thesis by auto
        next
          case st1: (Inr st1)
          show ?thesis
          proof (cases "parse_expr fl k NoneN st1")
            case None
            with a Some TLParen st1 show ?thesis by auto
          next
            case inner: (Some res)
            from "2.IH"(1) [OF Some TLParen st1] inner
            have inner': "parse_expr fl (k + j) NoneN st1 = Some res" by simp
            show ?thesis
            proof (cases res)
              case (Inl e)
              with a Some TLParen st1 inner inner' show ?thesis by auto
            next
              case (Inr p)
              obtain t st2 where p: "p = (t, st2)" by (cases p)
              show ?thesis
              proof (cases "token st2 = Some TRParen")
                case False
                with a Some TLParen st1 inner inner' Inr p show ?thesis by auto
              next
                case True
                show ?thesis
                proof (cases "scan st2")
                  case (Inl e)
                  with a Some TLParen st1 inner inner' Inr p True show ?thesis by auto
                next
                  case st3: (Inr st3)
                  from a Some TLParen st1 inner Inr p True st3
                  have "parse_expr fl k (add acc t) st3 = Some r" by simp
                  with "2.IH"(2) [OF Some TLParen st1 inner Inr p [symmetric] _ st3] True
                  have "parse_expr fl (k + j) (add acc t) st3 = Some r" by simp
                  with Some TLParen st1 inner' Inr p True st3 show ?thesis by auto
                qed
              qed
            qed
          qed
        qed
      next
        case TRParen
        with a Some show ?thesis by auto
      next
        case TDot
        with a Some show ?thesis by auto
      next
        case TLet
        with a Some show ?thesis by auto
      next
        case TLambda
        show ?thesis
        proof (cases "parse_lambda fl k [] st")
          case None
          with a Some TLambda show ?thesis by auto
        next
          case inner: (Some res)
          from "2.IH"(3) [OF Some TLambda] inner
          have inner': "parse_lambda fl (k + j) [] st = Some res" by simp
          show ?thesis
          proof (cases res)
            case (Inl e)
            with a Some TLambda inner inner' show ?thesis by auto
          next
            case (Inr p)
            obtain t st1 where p: "p = (t, st1)" by (cases p)
            from a Some TLambda inner Inr p
            have "parse_expr fl k (add acc t) st1 = Some r" by simp
            with "2.IH"(4) [OF Some TLambda inner Inr p [symmetric]]
            have "parse_expr fl (k + j) (add acc t) st1 = Some r" by simp
            with Some TLambda inner' Inr p show ?thesis by auto
          qed
        qed
      next
        case TNumber
        show ?thesis
        proof (cases "scan st")
          case (Inl e)
          with a Some TNumber show ?thesis by auto
        next
          case (Inr st1)
          with a Some TNumber "2.IH"(5) [OF Some TNumber Inr] show ?thesis by auto
        qed
      next
        case TString
        show ?thesis
        proof (cases "scan st")
          case (Inl e)
          with a Some TString show ?thesis by auto
        next
          case (Inr st1)
          with a Some TString "2.IH"(6) [OF Some TString Inr] show ?thesis by auto
        qed
      next
        case TVar
        show ?thesis
        proof (cases "scan st")
          case (Inl e)
          with a Some TVar show ?thesis by auto
        next
          case (Inr st1)
          with a Some TVar "2.IH"(7) [OF Some TVar Inr] show ?thesis by auto
        qed
      qed
    qed
  qed
next
  case (3 fl ll st)
  show ?case by simp
next
  case (4 fl k ll st)
  show ?case
  proof
    assume a: "parse_lambda fl (Suc k) ll st = Some r'"
    show "parse_lambda fl (Suc k + j) ll st = Some r'"
    proof (cases "token st = Some TLambda")
      case True
      show ?thesis
      proof (cases "scan st")
        case (Inl e)
        with a True show ?thesis by auto
      next
        case (Inr st1)
        with a True "4.IH"(1) [OF True Inr] show ?thesis by auto
      qed
    next
      case False
      show ?thesis
      proof (cases "parse_expr fl k NoneN st")
        case None
        with a False show ?thesis by auto
      next
        case (Some res)
        with "4.IH"(2) [OF False] have "parse_expr fl (k + j) NoneN st = Some res" by simp
        with a False Some show ?thesis by auto
      qed
    qed
  qed
qed

lemma parse_expr_mono:
  "parse_expr fl k acc st = Some r \<Longrightarrow> parse_expr fl (k + j) acc st = Some r"
  using parse_expr_lambda_mono(1) by blast

lemma parse_statements_mono:
  "parse_statements fl k res st = Some r \<Longrightarrow> parse_statements fl (k + j) res st = Some r"
proof (induction fl k res st arbitrary: r rule: parse_statements.induct)
  case (1 fl res st)
  then show ?case by simp
next
  case (2 fl k res st)
  let ?item = "\<lambda>k. if token st = Some TLet then
              (case scan st of
                 Inl e \<Rightarrow> Some (Inl e)
               | Inr st1 \<Rightarrow>
                   if token st1 \<noteq> Some TVar \<or> word st1 \<noteq> ''=''
                   then Some (Inl (SyntaxError (pos st1) ''= expected''))
                   else
                     (case scan st1 of
                        Inl e \<Rightarrow> Some (Inl e)
                      | Inr st2 \<Rightarrow>
                          (case parse_expr fl k NoneN st2 of
                             None \<Rightarrow> None
                           | Some (Inl e) \<Rightarrow> Some (Inl e)
                           | Some (Inr (t, st3)) \<Rightarrow>
                               Some (Inr (LetStmt (tl (word st)) t, st3)))))
            else
              (case parse_expr fl k NoneN st of
                 None \<Rightarrow> None
               | Some (Inl e) \<Rightarrow> Some (Inl e)
               | Some (Inr (t, st3)) \<Rightarrow> Some (Inr (Expr t, st3)))"
  have item_mono: "?item (k + j) = Some x" if "?item k = Some x" for x
    using that
    by (auto split: if_splits sum.splits option.splits prod.splits
        dest: parse_expr_mono [where j = j])
  show ?case
  proof (cases "token st = None")
    case True
    with "2.prems" show ?thesis by simp
  next
    case False
    show ?thesis
    proof (cases "?item k")
      case None
      with "2.prems" False show ?thesis by simp
    next
      case (Some x)
      note x' = item_mono [OF Some]
      show ?thesis
      proof (cases x)
        case (Inl e)
        with "2.prems" False Some x' show ?thesis by auto
      next
        case (Inr p)
        obtain stmt st3 where p: "p = (stmt, st3)" by (cases p)
        show ?thesis
        proof (cases "token st3 = Some TDot")
          case nd: False
          with "2.prems" False Some x' Inr p show ?thesis by auto
        next
          case dot: True
          show ?thesis
          proof (cases "scan st3")
            case (Inl e)
            with "2.prems" False Some x' Inr p dot show ?thesis by auto
          next
            case st4: (Inr st4)
            from "2.prems" False Some Inr p dot st4
            have "parse_statements fl k (res @ [stmt]) st4 = Some r" by simp
            with "2.IH" [OF False Some Inr p [symmetric] _ st4] dot
            have "parse_statements fl (k + j) (res @ [stmt]) st4 = Some r" by simp
            with False x' Inr p dot st4 show ?thesis by auto
          qed
        qed
      qed
    qed
  qed
qed

lemma parse_mono: "parse fl k text = Some r \<Longrightarrow> parse fl (k + j) text = Some r"
  by (auto simp: parse_def split: sum.splits option.splits prod.splits if_splits
      dest: parse_statements_mono [where j = j])

text \<open>
  Every token has at least one character, so every \<^verbatim>\<open>scan\<close> at a token lowers
  \<open>todo\<close>, and a bound of three times \<open>todo\<close> is enough for an expression.
\<close>

lemma IDENT_nonempty: "IDENT str = Some w \<Longrightarrow> w \<noteq> []"
  by (auto simp: IDENT_def split: list.splits if_splits)

lemma first_match_nonempty: "first_match TOKENS str = Some (key, w) \<Longrightarrow> w \<noteq> []"
  by (auto simp: TOKENS_def re_char_def re_char_IDENT_def re_number_def re_string_def Let_def
      split: option.splits list.splits if_splits dest: IDENT_nonempty)

lemma scan_todo: "scan st = Inr st' \<Longrightarrow> todo st' \<le> length (s st)"
proof -
  assume a: "scan st = Inr st'"
  let ?s1 = "dropWhile is_space (s st)"
  have le: "length ?s1 \<le> length (s st)" by (rule length_dropWhile_le)
  show ?thesis
  proof (cases "?s1 = []")
    case True
    with a show ?thesis by (auto simp: scan_def todo_def Let_def split: if_splits)
  next
    case False
    show ?thesis
    proof (cases "first_match TOKENS ?s1")
      case None
      with a False show ?thesis by (auto simp: scan_def Let_def split: if_splits)
    next
      case (Some kw)
      obtain key w where kw: "kw = (key, w)" by (cases kw)
      from Some kw have "w \<noteq> []" by (auto dest: first_match_nonempty)
      with False have "length (drop (length w) ?s1) < length ?s1" by (cases w) auto
      moreover from a False Some kw
      have "st' = st\<lparr>s := drop (length w) ?s1, pos := pos st + length w,
                      token := Some key, word := w\<rparr>"
        by (auto simp: scan_def Let_def split: if_splits)
      ultimately show ?thesis using le by (simp add: todo_def)
    qed
  qed
qed

lemma scan_todo_less: "token st = Some tk \<Longrightarrow> scan st = Inr st' \<Longrightarrow> todo st' < todo st"
  using scan_todo [of st st'] by (simp add: todo_def)

lemma parse_expr_lambda_total:
  "3 * todo st < k \<longrightarrow>
     (\<exists>r. parse_expr fl k acc st = Some r \<and>
          (\<forall>t st'. r = Inr (t, st') \<longrightarrow> todo st' \<le> todo st))"
  "(if token st = Some TLambda then 3 * todo st \<le> k else 3 * todo st + 2 \<le> k) \<longrightarrow>
     (\<exists>r. parse_lambda fl k ll st = Some r \<and>
          (\<forall>t st'. r = Inr (t, st') \<longrightarrow>
             (if token st = Some TLambda then todo st' < todo st else todo st' \<le> todo st)))"
proof (induction fl k acc st and fl k ll st rule: parse_expr_parse_lambda.induct)
  case (1 fl acc st)
  show ?case by simp
next
  case (2 fl k acc st)
  show ?case
  proof
    assume b: "3 * todo st < Suc k"
    let ?goal = "\<exists>r. parse_expr fl (Suc k) acc st = Some r \<and>
          (\<forall>t st'. r = Inr (t, st') \<longrightarrow> todo st' \<le> todo st)"
    have after_scan: ?goal
      if tk: "token st = Some tk" and eq: "\<And>st1. scan st = Inr st1 \<Longrightarrow>
            parse_expr fl (Suc k) acc st = parse_expr fl k a st1"
        and err: "\<And>e. scan st = Inl e \<Longrightarrow> parse_expr fl (Suc k) acc st = Some (Inl e)"
        and ih: "\<And>st1. scan st = Inr st1 \<Longrightarrow> 3 * todo st1 < k \<longrightarrow>
            (\<exists>r. parse_expr fl k a st1 = Some r \<and>
              (\<forall>t st'. r = Inr (t, st') \<longrightarrow> todo st' \<le> todo st1))"
      for tk a
    proof (cases "scan st")
      case (Inl e)
      with err show ?thesis by simp
    next
      case (Inr st1)
      from scan_todo_less [OF tk Inr] have lt: "todo st1 < todo st" .
      with b have "3 * todo st1 < k" by simp
      with ih [OF Inr] obtain r where r: "parse_expr fl k a st1 = Some r"
        and post: "\<forall>t st'. r = Inr (t, st') \<longrightarrow> todo st' \<le> todo st1" by blast
      from post lt have "\<forall>t st'. r = Inr (t, st') \<longrightarrow> todo st' \<le> todo st" by fastforce
      with r eq [OF Inr] show ?thesis by simp
    qed
    show ?goal
    proof (cases "token st")
      case None
      then show ?thesis by simp
    next
      case (Some tk)
      show ?thesis
      proof (cases tk)
        case TRParen
        with Some show ?thesis by simp
      next
        case TDot
        with Some show ?thesis by simp
      next
        case TLet
        with Some show ?thesis by simp
      next
        case TNumber
        show ?thesis
          by (rule after_scan [OF Some, where a = "add acc (Val (number_value fl (word st)))"])
            (use Some TNumber "2.IH"(5) in auto)
      next
        case TString
        show ?thesis
          by (rule after_scan [OF Some,
                where a = "add acc (Val (StrV (str_replace dquote [dquote] (butlast (tl (word st))))))"])
            (use Some TString "2.IH"(6) in auto)
      next
        case TVar
        show ?thesis
          by (rule after_scan [OF Some, where a = "add acc (Var (word st))"])
            (use Some TVar "2.IH"(7) in auto)
      next
        case TLambda
        from b have "3 * todo st \<le> k" by simp
        with "2.IH"(3) [OF Some TLambda] Some TLambda
        obtain res where res: "parse_lambda fl k [] st = Some res"
          and post: "\<forall>t st'. res = Inr (t, st') \<longrightarrow> todo st' < todo st" by auto
        show ?thesis
        proof (cases res)
          case (Inl e)
          with Some TLambda res show ?thesis by simp
        next
          case (Inr p)
          obtain t st1 where p: "p = (t, st1)" by (cases p)
          from post Inr p have lt: "todo st1 < todo st" by simp
          with b have "3 * todo st1 < k" by simp
          with "2.IH"(4) [OF Some TLambda res Inr p [symmetric]]
          obtain r where r: "parse_expr fl k (add acc t) st1 = Some r"
            and post': "\<forall>t' st'. r = Inr (t', st') \<longrightarrow> todo st' \<le> todo st1" by blast
          from post' lt have "\<forall>t' st'. r = Inr (t', st') \<longrightarrow> todo st' \<le> todo st" by fastforce
          with r Some TLambda res Inr p show ?thesis by simp
        qed
      next
        case TLParen
        show ?thesis
        proof (cases "scan st")
          case (Inl e)
          with Some TLParen show ?thesis by simp
        next
          case st1: (Inr st1)
          from scan_todo_less [OF Some st1] have lt1: "todo st1 < todo st" .
          with b have "3 * todo st1 < k" by simp
          with "2.IH"(1) [OF Some TLParen st1]
          obtain res where res: "parse_expr fl k NoneN st1 = Some res"
            and post: "\<forall>t st'. res = Inr (t, st') \<longrightarrow> todo st' \<le> todo st1" by blast
          show ?thesis
          proof (cases res)
            case (Inl e)
            with Some TLParen st1 res show ?thesis by simp
          next
            case (Inr p)
            obtain t st2 where p: "p = (t, st2)" by (cases p)
            from post Inr p have le2: "todo st2 \<le> todo st1" by simp
            show ?thesis
            proof (cases "token st2 = Some TRParen")
              case False
              with Some TLParen st1 res Inr p show ?thesis by simp
            next
              case True
              show ?thesis
              proof (cases "scan st2")
                case (Inl e)
                with Some TLParen st1 res Inr p True show ?thesis by simp
              next
                case st3: (Inr st3)
                from scan_todo_less [OF True st3] have lt3: "todo st3 < todo st2" .
                with le2 lt1 b have "3 * todo st3 < k" by simp
                with "2.IH"(2) [OF Some TLParen st1 res Inr p [symmetric] _ st3] True
                obtain r where r: "parse_expr fl k (add acc t) st3 = Some r"
                  and post': "\<forall>t' st'. r = Inr (t', st') \<longrightarrow> todo st' \<le> todo st3" by auto
                from post' lt3 le2 lt1
                have "\<forall>t' st'. r = Inr (t', st') \<longrightarrow> todo st' \<le> todo st" by fastforce
                with r Some TLParen st1 res Inr p True st3 show ?thesis by simp
              qed
            qed
          qed
        qed
      qed
    qed
  qed
next
  case (3 fl ll st)
  show ?case by (auto simp: todo_def)
next
  case (4 fl k ll st)
  show ?case
  proof (cases "token st = Some TLambda")
    case True
    show ?thesis
    proof
      assume "if token st = Some TLambda then 3 * todo st \<le> Suc k else 3 * todo st + 2 \<le> Suc k"
      with True have b: "3 * todo st \<le> Suc k" by simp
      show "\<exists>r. parse_lambda fl (Suc k) ll st = Some r \<and>
          (\<forall>t st'. r = Inr (t, st') \<longrightarrow>
             (if token st = Some TLambda then todo st' < todo st else todo st' \<le> todo st))"
      proof (cases "scan st")
        case (Inl e)
        with True show ?thesis by simp
      next
        case (Inr st1)
        from scan_todo_less [OF True Inr] have lt: "todo st1 < todo st" .
        with b have pre: "if token st1 = Some TLambda then 3 * todo st1 \<le> k else 3 * todo st1 + 2 \<le> k"
          by simp
        with "4.IH"(1) [OF True Inr]
        obtain r where r: "parse_lambda fl k (ll @ [tl (word st)]) st1 = Some r"
          and post: "\<forall>t st'. r = Inr (t, st') \<longrightarrow>
             (if token st1 = Some TLambda then todo st' < todo st1 else todo st' \<le> todo st1)"
          by blast
        have "\<forall>t st'. r = Inr (t, st') \<longrightarrow> todo st' < todo st"
        proof (intro allI impI)
          fix t st' assume "r = Inr (t, st')"
          with post have "if token st1 = Some TLambda then todo st' < todo st1
              else todo st' \<le> todo st1" by blast
          then have "todo st' \<le> todo st1" by (simp split: if_splits)
          with lt show "todo st' < todo st" by simp
        qed
        with r True Inr show ?thesis by simp
      qed
    qed
  next
    case False
    show ?thesis
    proof
      assume "if token st = Some TLambda then 3 * todo st \<le> Suc k else 3 * todo st + 2 \<le> Suc k"
      with False have "3 * todo st < k" by simp
      with "4.IH"(2) [OF False]
      obtain res where res: "parse_expr fl k NoneN st = Some res"
        and post: "\<forall>t st'. res = Inr (t, st') \<longrightarrow> todo st' \<le> todo st" by blast
      show "\<exists>r. parse_lambda fl (Suc k) ll st = Some r \<and>
          (\<forall>t st'. r = Inr (t, st') \<longrightarrow>
             (if token st = Some TLambda then todo st' < todo st else todo st' \<le> todo st))"
      proof (cases res)
        case (Inl e)
        with False res show ?thesis by simp
      next
        case (Inr p)
        obtain t st1 where p: "p = (t, st1)" by (cases p)
        with post Inr have "todo st1 \<le> todo st" by simp
        with False res Inr p show ?thesis by simp
      qed
    qed
  qed
qed

lemma parse_expr_total:
  assumes "3 * todo st < k"
  obtains r where "parse_expr fl k acc st = Some r"
    and "\<And>t st'. r = Inr (t, st') \<Longrightarrow> todo st' \<le> todo st"
  using parse_expr_lambda_total(1) [of st k fl acc] assms by blast

lemma parse_statements_total:
  "3 * todo st + 1 < k \<Longrightarrow> \<exists>r. parse_statements fl k res st = Some r"
proof (induction fl k res st rule: parse_statements.induct)
  case (1 fl res st)
  then show ?case by simp
next
  case (2 fl k res st)
  from "2.prems" have b: "3 * todo st < k" by simp
  let ?item = "if token st = Some TLet then
              (case scan st of
                 Inl e \<Rightarrow> Some (Inl e)
               | Inr st1 \<Rightarrow>
                   if token st1 \<noteq> Some TVar \<or> word st1 \<noteq> ''=''
                   then Some (Inl (SyntaxError (pos st1) ''= expected''))
                   else
                     (case scan st1 of
                        Inl e \<Rightarrow> Some (Inl e)
                      | Inr st2 \<Rightarrow>
                          (case parse_expr fl k NoneN st2 of
                             None \<Rightarrow> None
                           | Some (Inl e) \<Rightarrow> Some (Inl e)
                           | Some (Inr (t, st3)) \<Rightarrow>
                               Some (Inr (LetStmt (tl (word st)) t, st3)))))
            else
              (case parse_expr fl k NoneN st of
                 None \<Rightarrow> None
               | Some (Inl e) \<Rightarrow> Some (Inl e)
               | Some (Inr (t, st3)) \<Rightarrow> Some (Inr (Expr t, st3)))"
  have item: "\<exists>x. ?item = Some x \<and> (\<forall>stmt st3. x = Inr (stmt, st3) \<longrightarrow> todo st3 \<le> todo st)"
  proof (cases "token st = Some TLet")
    case False
    from parse_expr_total [OF b, of fl NoneN]
    obtain r where r: "parse_expr fl k NoneN st = Some r"
      and post: "\<And>t st'. r = Inr (t, st') \<Longrightarrow> todo st' \<le> todo st" by blast
    show ?thesis
    proof (cases r)
      case (Inl e)
      with False r show ?thesis by simp
    next
      case (Inr p)
      obtain t st3 where p: "p = (t, st3)" by (cases p)
      with post Inr have "todo st3 \<le> todo st" by simp
      with False r Inr p show ?thesis by simp
    qed
  next
    case True
    show ?thesis
    proof (cases "scan st")
      case (Inl e)
      with True show ?thesis by simp
    next
      case st1: (Inr st1)
      from scan_todo_less [OF True st1] have lt1: "todo st1 < todo st" .
      show ?thesis
      proof (cases "token st1 \<noteq> Some TVar \<or> word st1 \<noteq> ''=''")
        case c: True
        with True st1 show ?thesis by simp
      next
        case c: False
        then have tv: "token st1 = Some TVar" by simp
        show ?thesis
        proof (cases "scan st1")
          case (Inl e)
          with True st1 c show ?thesis by simp
        next
          case st2: (Inr st2)
          from scan_todo_less [OF tv st2] have lt2: "todo st2 < todo st1" .
          with lt1 b have "3 * todo st2 < k" by simp
          from parse_expr_total [OF this, of fl NoneN]
          obtain r where r: "parse_expr fl k NoneN st2 = Some r"
            and post: "\<And>t st'. r = Inr (t, st') \<Longrightarrow> todo st' \<le> todo st2" by blast
          show ?thesis
          proof (cases r)
            case (Inl e)
            with True st1 c st2 r show ?thesis by simp
          next
            case (Inr p)
            obtain t st3 where p: "p = (t, st3)" by (cases p)
            with post Inr have "todo st3 \<le> todo st2" by simp
            with lt1 lt2 have "todo st3 \<le> todo st" by simp
            with True st1 c st2 r Inr p show ?thesis by simp
          qed
        qed
      qed
    qed
  qed
  then obtain x where x: "?item = Some x"
    and post: "\<And>stmt st3. x = Inr (stmt, st3) \<Longrightarrow> todo st3 \<le> todo st" by blast
  show ?case
  proof (cases "token st = None")
    case True
    then show ?thesis by simp
  next
    case False
    show ?thesis
    proof (cases x)
      case (Inl e)
      with False x show ?thesis by auto
    next
      case (Inr p)
      obtain stmt st3 where p: "p = (stmt, st3)" by (cases p)
      from post Inr p have le3: "todo st3 \<le> todo st" by simp
      show ?thesis
      proof (cases "token st3 = Some TDot")
        case nd: False
        with False x Inr p show ?thesis by auto
      next
        case dot: True
        show ?thesis
        proof (cases "scan st3")
          case (Inl e)
          with False x Inr p dot show ?thesis by auto
        next
          case st4: (Inr st4)
          from scan_todo_less [OF dot st4] have "todo st4 < todo st3" .
          with le3 b have "3 * todo st4 + 1 < k" by simp
          with "2.IH" [OF False x Inr p [symmetric] _ st4] dot
          obtain r where "parse_statements fl k (res @ [stmt]) st4 = Some r" by auto
          with False x Inr p dot st4 show ?thesis by auto
        qed
      qed
    qed
  qed
qed

lemma parse_total: "\<exists>r. parse fl (3 * length text + 5) text = Some r"
proof (cases "scan (start text)")
  case (Inl e)
  then show ?thesis by (simp add: parse_def)
next
  case (Inr st)
  from scan_todo [OF Inr] have "todo st \<le> length text" by (simp add: start_def)
  then have "3 * todo st + 1 < 3 * length text + 5" by simp
  from parse_statements_total [OF this, of fl "[]"]
  obtain r where "parse_statements fl (3 * length text + 5) [] st = Some r" by blast
  with Inr show ?thesis
    by (auto simp: parse_def split: sum.splits prod.splits)
qed

lemma parse_result_stable:
  assumes "3 * length text + 5 \<le> k"
  shows "parse fl k text = parse fl (3 * length text + 5) text"
proof -
  from parse_total obtain r where r: "parse fl (3 * length text + 5) text = Some r" by blast
  from parse_mono [OF r, of "k - (3 * length text + 5)"] assms
  have "parse fl k text = Some r" by simp
  with r show ?thesis by simp
qed

end
